theory Spec2Isabelle
  imports Complex_Main "HOL-Library.Word" "HOL-Library.Multiset"
begin

section \<open>Outcomes of a call\<close>

text \<open>
  A call of the solver either returns a value or does not. The ways of not returning
  are kept apart: a failed \<^verbatim>\<open>assert\<close>, an access outside a vector or outside the
  clause arena (undefined behaviour in C++), a division by zero in the restart test of
  \<^verbatim>\<open>search\<close>, a division by zero while printing statistics, and the exhaustion of
  the iteration budget that bounds the two loops \<^verbatim>\<open>for(;;)\<close> of \<^verbatim>\<open>search\<close> and
  \<^verbatim>\<open>while(status == l_Undef)\<close> of \<^verbatim>\<open>solve_\<close>.
\<close>

datatype fault = AssertFailed | Undefined | RestartDivByZero | StatsDivByZero | OutOfFuel

type_synonym 'a res = "fault + 'a"

definition thn :: "'a res \<Rightarrow> ('a \<Rightarrow> 'b res) \<Rightarrow> 'b res" where
  "thn m f = (case m of Inl e \<Rightarrow> Inl e | Inr x \<Rightarrow> f x)"

section \<open>Literals and three-valued logic\<close>

text \<open>
  Modelled from the spec: the header \<^verbatim>\<open>core/SolverTypes.h\<close> (types \<^verbatim>\<open>Var\<close>,
  \<^verbatim>\<open>Lit\<close>, \<^verbatim>\<open>lbool\<close>, \<^verbatim>\<open>Clause\<close>, \<^verbatim>\<open>ClauseAllocator\<close>, \<^verbatim>\<open>OccLists\<close>) is not
  among the sources. A variable is a number \<open>0, 1, \<dots>\<close>; a literal is the number
  \<open>2 * v + s\<close> with \<open>s = 1\<close> for the negated variable; negation flips the lowest bit.
  The sentinels \<^verbatim>\<open>lit_Undef\<close>, \<^verbatim>\<open>var_Undef\<close> and \<^verbatim>\<open>CRef_Undef\<close> are \<open>None\<close>.
\<close>

type_synonym var = nat
type_synonym lit = nat
type_synonym cref = nat

definition mkLit :: "var \<Rightarrow> bool \<Rightarrow> lit" where
  "mkLit v sg = v + v + (if sg then 1 else 0)"

definition var :: "lit \<Rightarrow> var" where
  "var p = p div 2"

definition sign :: "lit \<Rightarrow> bool" where
  "sign p = (p mod 2 = 1)"

definition neg :: "lit \<Rightarrow> lit" where
  "neg p = (if p mod 2 = 0 then p + 1 else p - 1)"

datatype lbool = l_True | l_False | l_Undef

text \<open>\<^verbatim>\<open>lbool(bool)\<close> and \<^verbatim>\<open>lbool ^ bool\<close>.\<close>

definition lbool_of :: "bool \<Rightarrow> lbool" where
  "lbool_of b = (if b then l_True else l_False)"

definition lxor :: "lbool \<Rightarrow> bool \<Rightarrow> lbool" where
  "lxor v b = (case v of l_Undef \<Rightarrow> l_Undef
               | l_True \<Rightarrow> (if b then l_False else l_True)
               | l_False \<Rightarrow> (if b then l_True else l_False))"

section \<open>Clauses and the clause arena\<close>

text \<open>
  Modelled from the spec: a clause is its literals and its header (learnt flag, deletion
  mark, relocated flag); a learnt clause also stores an activity and an LBD. The arena
  is a bump allocator: a clause reference is the offset at which the clause starts, and
  a clause takes one unit of header, one unit for each literal and two more units when
  it is learnt. \<^verbatim>\<open>free\<close> only accounts the units as wasted. \<^verbatim>\<open>reloc\<close> writes the
  forwarding reference into the first literal slot of the old clause.
\<close>

record Clause =
  c_lits :: "lit list"
  c_learnt :: bool
  c_mark :: nat
  c_reloced :: bool
  c_activity :: real
  c_lbd :: nat

record ClauseAllocator =
  mem :: "cref \<Rightarrow> Clause option"
  ca_size :: nat
  ca_wasted :: nat

definition clause_units :: "Clause \<Rightarrow> nat" where
  "clause_units c = 1 + length (c_lits c) + (if c_learnt c then 2 else 0)"

definition ca_empty :: ClauseAllocator where
  "ca_empty = \<lparr> mem = (\<lambda>_. None), ca_size = 0, ca_wasted = 0 \<rparr>"

definition ca_alloc_clause :: "Clause \<Rightarrow> ClauseAllocator \<Rightarrow> cref \<times> ClauseAllocator" where
  "ca_alloc_clause c a =
     (ca_size a, a\<lparr> mem := (mem a)(ca_size a \<mapsto> c), ca_size := ca_size a + clause_units c \<rparr>)"

definition ca_alloc :: "lit list \<Rightarrow> bool \<Rightarrow> ClauseAllocator \<Rightarrow> cref \<times> ClauseAllocator" where
  "ca_alloc ps learnt a =
     ca_alloc_clause \<lparr> c_lits = ps, c_learnt = learnt, c_mark = 0, c_reloced = False,
                       c_activity = 0, c_lbd = 0 \<rparr> a"

definition ca_free :: "cref \<Rightarrow> ClauseAllocator \<Rightarrow> ClauseAllocator res" where
  "ca_free cr a = (case mem a cr of None \<Rightarrow> Inl Undefined
                   | Some c \<Rightarrow> Inr (a\<lparr> ca_wasted := ca_wasted a + clause_units c \<rparr>))"

definition ca_set :: "cref \<Rightarrow> Clause \<Rightarrow> ClauseAllocator \<Rightarrow> ClauseAllocator" where
  "ca_set cr c a = a\<lparr> mem := (mem a)(cr \<mapsto> c) \<rparr>"

section \<open>Watchers, the order heap and the bounded queues\<close>

datatype Watcher = Watcher (cref: cref) (blocker: lit)

text \<open>
  Modelled from the spec: \<^verbatim>\<open>mtl/Heap.h\<close> is not among the sources. The order heap is
  the sequence of the variables it holds; \<^verbatim>\<open>removeMin\<close> takes out a variable of
  greatest activity (the first such one), \<^verbatim>\<open>insert\<close> adds a variable and
  \<^verbatim>\<open>decrease\<close> leaves the set of variables as it is.
\<close>

definition inHeap :: "var list \<Rightarrow> var \<Rightarrow> bool" where
  "inHeap h x = (x \<in> set h)"

definition heap_insert :: "var \<Rightarrow> var list \<Rightarrow> var list" where
  "heap_insert x h = h @ [x]"

fun heap_best :: "real list \<Rightarrow> var \<Rightarrow> var list \<Rightarrow> var" where
  "heap_best act b [] = b"
| "heap_best act b (x # xs) = heap_best act (if act ! x > act ! b then x else b) xs"

definition heap_removeMin :: "real list \<Rightarrow> var list \<Rightarrow> (var \<times> var list) res" where
  "heap_removeMin act h =
     (case h of [] \<Rightarrow> Inl Undefined
      | x # xs \<Rightarrow> if \<exists>y \<in> set h. \<not> y < length act then Inl Undefined
                  else Inr (heap_best act x xs, remove1 (heap_best act x xs) h))"

text \<open>
  Modelled from the spec: the bounded queue type of \<^verbatim>\<open>lbdQueue\<close> and
  \<^verbatim>\<open>trailQueue\<close> is not among the sources (nor are the declarations of these two
  fields and of \<^verbatim>\<open>sumLBD\<close>). It is a ring of fixed capacity that holds the last values
  pushed; it is valid when it is full.
\<close>

record bqueue =
  bq_elems :: "nat list"
  bq_maxsize :: nat

definition bq_init :: "nat \<Rightarrow> bqueue" where
  "bq_init n = \<lparr> bq_elems = [], bq_maxsize = n \<rparr>"

definition bq_push :: "nat \<Rightarrow> bqueue \<Rightarrow> bqueue" where
  "bq_push x q = (if length (bq_elems q) = bq_maxsize q
                  then q\<lparr> bq_elems := tl (bq_elems q) @ [x] \<rparr>
                  else q\<lparr> bq_elems := bq_elems q @ [x] \<rparr>)"

definition bq_isvalid :: "bqueue \<Rightarrow> bool" where
  "bq_isvalid q = (length (bq_elems q) = bq_maxsize q)"

definition bq_getavg :: "bqueue \<Rightarrow> real" where
  "bq_getavg q = real (sum_list (bq_elems q)) / real (length (bq_elems q))"

definition bq_fastclear :: "bqueue \<Rightarrow> bqueue" where
  "bq_fastclear q = q\<lparr> bq_elems := [] \<rparr>"

section \<open>The solver state\<close>

record VarData =
  vd_reason :: "cref option"
  vd_level :: nat

text \<open>
  The fields of \<^verbatim>\<open>class Solver\<close>. The counters of type \<^verbatim>\<open>uint64_t\<close> and the two
  budgets of type \<^verbatim>\<open>int64_t\<close> are 64-bit words; \<^verbatim>\<open>double\<close> and \<^verbatim>\<open>float\<close>
  values are real numbers; sizes and indices of type \<^verbatim>\<open>int\<close> are natural numbers.
  \<open>trail_cap\<close> is the capacity of the vector \<^verbatim>\<open>trail\<close>, which \<^verbatim>\<open>push_\<close> asserts.
\<close>

record Solver =
  model :: "lbool list"
  verbosity :: int
  var_decay :: real
  clause_decay :: real
  luby_restart :: bool
  nextReduceDB :: "64 word"
  garbage_frac :: real
  starts :: "64 word"
  decisions :: "64 word"
  rnd_decisions :: "64 word"
  propagations :: "64 word"
  conflicts :: "64 word"
  nb_removed_clauses :: "64 word"
  nb_reducedb :: "64 word"
  nb_resolutions :: "64 word"
  nb_lits_in_learnts :: "64 word"
  ok :: bool
  clauses :: "cref list"
  learnts :: "cref list"
  cla_inc :: real
  activity :: "real list"
  var_inc :: real
  watches :: "Watcher list list"
  assigns :: "lbool list"
  polarity :: "bool list"
  trail :: "lit list"
  trail_cap :: nat
  trail_lim :: "nat list"
  vardata :: "VarData list"
  qhead :: nat
  order_heap :: "var list"
  progress_estimate :: real
  ca :: ClauseAllocator
  seen :: "bool list"
  levelTagged :: "32 word list"
  FLAG :: "32 word"
  conflict_budget :: "64 word"
  propagation_budget :: "64 word"
  asynch_interrupt :: bool
  lbdQueue :: bqueue
  trailQueue :: bqueue
  sumLBD :: real

text \<open>The constructor \<^verbatim>\<open>Solver::Solver\<close>, with the default values of the options.\<close>

definition Solver_init :: Solver where
  "Solver_init = \<lparr>
     model = [], verbosity = 0, var_decay = 95 / 100, clause_decay = 999 / 1000,
     luby_restart = True, nextReduceDB = 2000, garbage_frac = 20 / 100,
     starts = 0, decisions = 0, rnd_decisions = 0, propagations = 0, conflicts = 0,
     nb_removed_clauses = 0, nb_reducedb = 0, nb_resolutions = 0, nb_lits_in_learnts = 0,
     ok = True, clauses = [], learnts = [], cla_inc = 1, activity = [], var_inc = 1,
     watches = [], assigns = [], polarity = [], trail = [], trail_cap = 0, trail_lim = [],
     vardata = [], qhead = 0, order_heap = [], progress_estimate = 0, ca = ca_empty,
     seen = [], levelTagged = [], FLAG = 0,
     conflict_budget = - 1, propagation_budget = - 1, asynch_interrupt = False,
     lbdQueue = bq_init 50, trailQueue = bq_init 5000, sumLBD = 0 \<rparr>"

subsection \<open>Inline methods of Solver.h\<close>

definition nVars :: "Solver \<Rightarrow> nat" where
  "nVars s = length (vardata s)"

definition decisionLevel :: "Solver \<Rightarrow> nat" where
  "decisionLevel s = length (trail_lim s)"

definition reason :: "Solver \<Rightarrow> var \<Rightarrow> cref option" where
  "reason s x = vd_reason (vardata s ! x)"

definition level :: "Solver \<Rightarrow> var \<Rightarrow> nat" where
  "level s x = vd_level (vardata s ! x)"

text \<open>\<^verbatim>\<open>value(Lit p)\<close>, read where \<open>var p\<close> is inside \<^verbatim>\<open>assigns\<close>.\<close>

definition valueL :: "Solver \<Rightarrow> lit \<Rightarrow> lbool" where
  "valueL s p = lxor (assigns s ! var p) (sign p)"

definition insertVarOrder :: "var \<Rightarrow> Solver \<Rightarrow> Solver" where
  "insertVarOrder x s =
     (if \<not> inHeap (order_heap s) x then s\<lparr> order_heap := heap_insert x (order_heap s) \<rparr> else s)"

definition newDecisionLevel :: "Solver \<Rightarrow> Solver" where
  "newDecisionLevel s = s\<lparr> trail_lim := trail_lim s @ [length (trail s)] \<rparr>"

subsection \<open>uncheckedEnqueue\<close>

definition uncheckedEnqueue :: "lit \<Rightarrow> cref option \<Rightarrow> Solver \<Rightarrow> Solver res" where
  "uncheckedEnqueue p from s =
     (if \<not> (var p < length (assigns s) \<and> var p < length (vardata s)) then Inl Undefined
      else if valueL s p \<noteq> l_Undef then Inl AssertFailed
      else if \<not> length (trail s) < trail_cap s then Inl AssertFailed
      else Inr (s\<lparr> assigns := (assigns s)[var p := lbool_of (\<not> sign p)],
                   vardata := (vardata s)[var p := \<lparr> vd_reason = from, vd_level = decisionLevel s \<rparr>],
                   trail := trail s @ [p] \<rparr>))"

subsection \<open>cancelUntil\<close>

text \<open>
  The loop of \<^verbatim>\<open>cancelUntil\<close> visits the trail entries from the last one down to the
  one at index \<^verbatim>\<open>trail_lim[level]\<close>; \<open>cancel_loop\<close> takes them in that order.
\<close>

fun cancel_loop :: "lit list \<Rightarrow> Solver \<Rightarrow> Solver res" where
  "cancel_loop [] s = Inr s"
| "cancel_loop (q # qs) s =
     (if \<not> (var q < length (assigns s) \<and> var q < length (polarity s)) then Inl Undefined
      else cancel_loop qs
             (insertVarOrder (var q)
               (s\<lparr> assigns := (assigns s)[var q := l_Undef],
                   polarity := (polarity s)[var q := sign q] \<rparr>)))"

definition cancelUntil :: "nat \<Rightarrow> Solver \<Rightarrow> Solver res" where
  "cancelUntil lv s =
     (if decisionLevel s > lv then
        thn (cancel_loop (rev (drop (trail_lim s ! lv) (trail s))) s)
          (\<lambda>s1. Inr (s1\<lparr> qhead := trail_lim s ! lv,
                         trail := take (trail_lim s ! lv) (trail s),
                         trail_lim := take lv (trail_lim s) \<rparr>))
      else Inr s)"

subsection \<open>newVar\<close>

text \<open>
  \<^verbatim>\<open>vec::capacity(min_cap)\<close> of \<^verbatim>\<open>mtl/Vec.h\<close>: the capacity after the call
  (\<^verbatim>\<open>x & ~1\<close> clears the lowest bit). \<^verbatim>\<open>OccLists::init\<close> grows the table of
  watch lists up to the index of the literal.
\<close>

definition vec_capacity :: "nat \<Rightarrow> nat \<Rightarrow> nat" where
  "vec_capacity cap min_cap =
     (if cap \<ge> min_cap then cap
      else cap + max (2 * ((min_cap - cap + 1) div 2)) (2 * ((cap div 2 + 2) div 2)))"

definition occ_init :: "lit \<Rightarrow> Watcher list list \<Rightarrow> Watcher list list" where
  "occ_init idx ws = ws @ replicate (idx + 1 - length ws) []"

definition newVar :: "bool \<Rightarrow> Solver \<Rightarrow> var \<times> Solver" where
  "newVar sg s =
     (let v = nVars s;
          s1 = s\<lparr> watches := occ_init (mkLit v True) (occ_init (mkLit v False) (watches s)),
                  assigns := assigns s @ [l_Undef],
                  vardata := vardata s @ [\<lparr> vd_reason = None, vd_level = 0 \<rparr>],
                  activity := activity s @ [0],
                  seen := seen s @ [False],
                  polarity := polarity s @ [sg] \<rparr>;
          s2 = insertVarOrder v s1
      in (v, s2\<lparr> trail_cap := vec_capacity (trail_cap s2) (v + 1),
                 levelTagged := levelTagged s2 @ [0] \<rparr>))"

subsection \<open>pickBranchLit\<close>

function pick_loop :: "Solver \<Rightarrow> (var option \<times> Solver) res" where
  "pick_loop s =
     (if order_heap s = [] then Inr (None, s)
      else (case heap_removeMin (activity s) (order_heap s) of
              Inl e \<Rightarrow> Inl e
            | Inr (x, h) \<Rightarrow>
                if \<not> x < length (assigns s) then Inl Undefined
                else if assigns s ! x \<noteq> l_Undef then pick_loop (s\<lparr> order_heap := h \<rparr>)
                else Inr (Some x, s\<lparr> order_heap := h \<rparr>)))"
  by pat_completeness auto

definition pickBranchLit :: "Solver \<Rightarrow> (lit option \<times> Solver) res" where
  "pickBranchLit s =
     thn (pick_loop s) (\<lambda>(r, s1).
       case r of
         None \<Rightarrow> Inr (None, s1)
       | Some x \<Rightarrow>
           if \<not> x < length (polarity s1) then Inl Undefined
           else Inr (Some (mkLit x (polarity s1 ! x)), s1\<lparr> decisions := decisions s1 + 1 \<rparr>))"

subsection \<open>propagate\<close>

text \<open>\<^verbatim>\<open>value(Lit p)\<close> as the code reads it: outside \<^verbatim>\<open>assigns\<close> it is undefined.\<close>

definition value_lit :: "Solver \<Rightarrow> lit \<Rightarrow> lbool res" where
  "value_lit s p = (if var p < length (assigns s) then Inr (valueL s p) else Inl Undefined)"

text \<open>
  Modelled from the spec: \<^verbatim>\<open>OccLists::cleanAll\<close> drops from the watch lists the
  watchers whose clause bears the deletion mark (\<^verbatim>\<open>WatcherDeleted\<close> of Solver.h).
\<close>

definition WatcherDeleted :: "ClauseAllocator \<Rightarrow> Watcher \<Rightarrow> bool" where
  "WatcherDeleted a w = (case mem a (cref w) of Some c \<Rightarrow> c_mark c = 1 | None \<Rightarrow> False)"

definition cleanAll :: "Solver \<Rightarrow> Solver" where
  "cleanAll s = s\<lparr> watches := map (filter (\<lambda>w. \<not> WatcherDeleted (ca s) w)) (watches s) \<rparr>"

text \<open>
  The search for a new watch, \<^verbatim>\<open>for(int k = 2; k < c.size(); k++)\<close>: the index of the
  first literal from position 2 on that is not false.
\<close>

fun find_watch :: "Solver \<Rightarrow> lit list \<Rightarrow> nat \<Rightarrow> nat option res" where
  "find_watch s [] k = Inr None"
| "find_watch s (q # qs) k =
     (case value_lit s q of
        Inl e \<Rightarrow> Inl e
      | Inr v \<Rightarrow> if v \<noteq> l_False then Inr (Some k) else find_watch s qs (Suc k))"

text \<open>
  One turn of the loop over the watchers of \<open>p\<close>. It ends in one of three ways: the
  watcher (possibly with a new blocker) is copied to the kept part of the list
  (\<^verbatim>\<open>*j++ = ...\<close>), the watcher leaves the list because the clause found another
  watch, or the clause is in conflict. Pushing the watcher onto the very list that is
  being traversed would invalidate the pointers \<^verbatim>\<open>i\<close>, \<^verbatim>\<open>j\<close>, \<^verbatim>\<open>end\<close>; this is
  undefined.
\<close>

datatype visit = Keep Watcher | Moved | Conflict Watcher

text \<open>\<^verbatim>\<open>if(c[0] == false_lit) c[0] = c[1], c[1] = false_lit;\<close>\<close>

definition false_lit_second :: "lit \<Rightarrow> lit list \<Rightarrow> lit list" where
  "false_lit_second false_lit ls =
     (if ls ! 0 = false_lit then ls[0 := ls ! 1, 1 := false_lit] else ls)"

definition propagate_watcher :: "lit \<Rightarrow> Watcher \<Rightarrow> Solver \<Rightarrow> (visit \<times> Solver) res" where
  "propagate_watcher p w s =
     thn (value_lit s (blocker w)) (\<lambda>vb.
       if vb = l_True then Inr (Keep w, s)
       else (case mem (ca s) (cref w) of
           None \<Rightarrow> Inl Undefined
         | Some c \<Rightarrow>
             if length (c_lits c) < 2 then Inl Undefined
             else
               let false_lit = neg p;
                   ls = false_lit_second false_lit (c_lits c)
               in if ls ! 1 \<noteq> false_lit then Inl AssertFailed
                  else
                    let first = ls ! 0;
                        w1 = Watcher (cref w) first;
                        s1 = s\<lparr> ca := ca_set (cref w) (c\<lparr> c_lits := ls \<rparr>) (ca s) \<rparr>
                    in thn (value_lit s first) (\<lambda>vf.
                         if first \<noteq> blocker w \<and> vf = l_True then Inr (Keep w1, s1)
                         else thn (find_watch s (drop 2 ls) 2) (\<lambda>ko.
                           case ko of
                             Some k \<Rightarrow>
                               let ls2 = ls[1 := ls ! k, k := false_lit] in
                               if neg (ls2 ! 1) = p \<or> \<not> neg (ls2 ! 1) < length (watches s)
                               then Inl Undefined
                               else Inr (Moved,
                                  s\<lparr> ca := ca_set (cref w) (c\<lparr> c_lits := ls2 \<rparr>) (ca s),
                                     watches := (watches s)[neg (ls2 ! 1) :=
                                                   watches s ! neg (ls2 ! 1) @ [w1]] \<rparr>)
                           | None \<Rightarrow>
                               if vf = l_False
                               then Inr (Conflict w1, s1\<lparr> qhead := length (trail s1) \<rparr>)
                               else thn (uncheckedEnqueue first (Some (cref w)) s1)
                                      (\<lambda>s2. Inr (Keep w1, s2))))))"

text \<open>
  The loop over the watch list \<^verbatim>\<open>ws\<close> of \<open>p\<close>: the watchers still to visit
  (\<^verbatim>\<open>i .. end\<close>) and the ones kept so far (\<^verbatim>\<open>ws .. j\<close>). It returns the conflict, if
  any, and the list as \<^verbatim>\<open>ws.shrink(i - j)\<close> leaves it.
\<close>

fun propagate_ws :: "lit \<Rightarrow> Watcher list \<Rightarrow> Watcher list \<Rightarrow> Solver
    \<Rightarrow> (cref option \<times> Watcher list \<times> Solver) res" where
  "propagate_ws p [] kept s = Inr (None, kept, s)"
| "propagate_ws p (w # rest) kept s =
     (case propagate_watcher p w s of
        Inl e \<Rightarrow> Inl e
      | Inr (Keep w1, s1) \<Rightarrow> propagate_ws p rest (kept @ [w1]) s1
      | Inr (Moved, s1) \<Rightarrow> propagate_ws p rest kept s1
      | Inr (Conflict w1, s1) \<Rightarrow> Inr (Some (cref w1), kept @ [w1] @ rest, s1))"

function propagate_loop :: "cref option \<Rightarrow> Solver \<Rightarrow> (cref option \<times> Solver) res" where
  "propagate_loop confl s =
     (if qhead s < length (trail s) then
        (let p = trail s ! qhead s;
             s1 = s\<lparr> qhead := qhead s + 1, propagations := propagations s + 1 \<rparr>
         in if \<not> p < length (watches s1) then Inl Undefined
            else (case propagate_ws p (watches s1 ! p) [] s1 of
                    Inl e \<Rightarrow> Inl e
                  | Inr (c, ws, s2) \<Rightarrow>
                      propagate_loop (case c of None \<Rightarrow> confl | Some cr \<Rightarrow> Some cr)
                        (s2\<lparr> watches := (watches s2)[p := ws] \<rparr>)))
      else Inr (confl, s))"
  by pat_completeness auto

definition propagate :: "Solver \<Rightarrow> (cref option \<times> Solver) res" where
  "propagate s = propagate_loop None (cleanAll s)"

subsection \<open>Activities\<close>

definition varDecayActivity :: "Solver \<Rightarrow> Solver" where
  "varDecayActivity s = s\<lparr> var_inc := var_inc s * (1 / var_decay s) \<rparr>"

definition claDecayActivity :: "Solver \<Rightarrow> Solver" where
  "claDecayActivity s = s\<lparr> cla_inc := cla_inc s * (1 / clause_decay s) \<rparr>"

text \<open>
  The literals \<^verbatim>\<open>1e100\<close>, \<^verbatim>\<open>1e-100\<close>, \<^verbatim>\<open>1e20\<close> and \<^verbatim>\<open>1e-20\<close> of the
  rescaling tests: each one denotes the \<^verbatim>\<open>double\<close> nearest to the decimal number, which
  is \<open>10\<^sup>2\<^sup>0\<close> itself for \<^verbatim>\<open>1e20\<close> and a neighbouring dyadic number for the
  other three. The arithmetic on activities is that of the real numbers: the rounding of
  each \<^verbatim>\<open>double\<close> operation is not modelled.
\<close>

definition double_1e100 :: real where
  "double_1e100 =
     10000000000000000159028911097599180468360808563945281389781327557747838772170381060813469985856815104"

definition double_1e_100 :: real where
  "double_1e_100 = 492525077454931 / 2 ^ 381"

definition double_1e20 :: real where
  "double_1e20 = 100000000000000000000"

definition double_1e_20 :: real where
  "double_1e_20 = 6646139978924579 / 2 ^ 119"

text \<open>
  \<^verbatim>\<open>varBumpActivity\<close>. The rescaling loop runs over the first \<^verbatim>\<open>nVars()\<close> entries
  of \<^verbatim>\<open>activity\<close>. \<^verbatim>\<open>order_heap.decrease(v)\<close> keeps the variables of the heap.
\<close>

definition varBumpActivity :: "var \<Rightarrow> Solver \<Rightarrow> Solver res" where
  "varBumpActivity v s =
     (if \<not> v < length (activity s) then Inl Undefined
      else
        let act = (activity s)[v := activity s ! v + var_inc s] in
        if act ! v > double_1e100 then
          (if \<not> nVars s \<le> length act then Inl Undefined
           else Inr (s\<lparr> activity := map (\<lambda>a. a * double_1e_100) (take (nVars s) act)
                                        @ drop (nVars s) act,
                        var_inc := var_inc s * double_1e_100 \<rparr>))
        else Inr (s\<lparr> activity := act \<rparr>))"

text \<open>
  \<^verbatim>\<open>claBumpActivity\<close>, on the clause at \<open>cr\<close>. The accessor \<^verbatim>\<open>activity()\<close> checks
  the learnt flag.
\<close>

fun cla_rescale :: "cref list \<Rightarrow> ClauseAllocator \<Rightarrow> ClauseAllocator res" where
  "cla_rescale [] a = Inr a"
| "cla_rescale (cr # crs) a =
     (case mem a cr of
        None \<Rightarrow> Inl Undefined
      | Some c \<Rightarrow>
          if \<not> c_learnt c then Inl AssertFailed
          else cla_rescale crs (ca_set cr (c\<lparr> c_activity := c_activity c * double_1e_20 \<rparr>) a))"

definition claBumpActivity :: "cref \<Rightarrow> Solver \<Rightarrow> Solver res" where
  "claBumpActivity cr s =
     (case mem (ca s) cr of
        None \<Rightarrow> Inl Undefined
      | Some c \<Rightarrow>
          if \<not> c_learnt c then Inl AssertFailed
          else
            let a1 = ca_set cr (c\<lparr> c_activity := c_activity c + cla_inc s \<rparr>) (ca s) in
            if c_activity c + cla_inc s > double_1e20 then
              thn (cla_rescale (learnts s) a1)
                (\<lambda>a2. Inr (s\<lparr> ca := a2, cla_inc := cla_inc s * double_1e_20 \<rparr>))
            else Inr (s\<lparr> ca := a1 \<rparr>))"

subsection \<open>analyze\<close>

text \<open>
  The loop over the literals of the conflicting clause or of a reason; it carries
  \<^verbatim>\<open>out_learnt\<close> and \<^verbatim>\<open>nbResolutionsToPerform\<close>.
\<close>

fun analyze_lits :: "lit list \<Rightarrow> lit list \<Rightarrow> int \<Rightarrow> Solver \<Rightarrow> (lit list \<times> int \<times> Solver) res" where
  "analyze_lits [] out nb s = Inr (out, nb, s)"
| "analyze_lits (q # qs) out nb s =
     (if \<not> var q < length (seen s) then Inl Undefined
      else if seen s ! var q then analyze_lits qs out nb s
      else if \<not> var q < length (vardata s) then Inl Undefined
      else if \<not> level s (var q) > 0 then analyze_lits qs out nb s
      else (case varBumpActivity (var q) s of
              Inl e \<Rightarrow> Inl e
            | Inr s1 \<Rightarrow>
                let s2 = s1\<lparr> seen := (seen s1)[var q := True] \<rparr> in
                if level s2 (var q) \<ge> decisionLevel s2
                then analyze_lits qs out (nb + 1) s2
                else analyze_lits qs (out @ [q]) nb s2))"

text \<open>
  \<^verbatim>\<open>while(!seen[var(trail[index--])]);\<close> with \<open>n = index + 1\<close>: the position of the
  last trail entry below \<open>n\<close> whose variable is marked. Running below the trail is
  undefined.
\<close>

fun analyze_scan :: "Solver \<Rightarrow> nat \<Rightarrow> nat res" where
  "analyze_scan s 0 = Inl Undefined"
| "analyze_scan s (Suc i) =
     (if \<not> i < length (trail s) then Inl Undefined
      else if \<not> var (trail s ! i) < length (seen s) then Inl Undefined
      else if seen s ! var (trail s ! i) then Inr i
      else analyze_scan s i)"

text \<open>
  The \<^verbatim>\<open>do ... while(nbResolutionsToPerform > 0)\<close> loop. It returns the literal
  \<open>p\<close> at which it stops, \<^verbatim>\<open>out_learnt\<close> and the state.
\<close>

function analyze_loop :: "cref option \<Rightarrow> lit option \<Rightarrow> lit list \<Rightarrow> int \<Rightarrow> nat \<Rightarrow> Solver
    \<Rightarrow> (lit \<times> lit list \<times> Solver) res" where
  "analyze_loop confl p out nb n s =
     (case confl of
        None \<Rightarrow> Inl AssertFailed
      | Some cr \<Rightarrow>
         (case mem (ca s) cr of
            None \<Rightarrow> Inl Undefined
          | Some c \<Rightarrow>
             (case (if c_learnt c
                    then claBumpActivity cr (s\<lparr> nb_resolutions := nb_resolutions s + 1 \<rparr>)
                    else Inr (s\<lparr> nb_resolutions := nb_resolutions s + 1 \<rparr>)) of
                Inl e \<Rightarrow> Inl e
              | Inr s1 \<Rightarrow>
                 (case analyze_lits (drop (if p = None then 0 else 1) (c_lits c)) out nb s1 of
                    Inl e \<Rightarrow> Inl e
                  | Inr (out1, nb1, s2) \<Rightarrow>
                     (case analyze_scan s2 n of
                        Inl e \<Rightarrow> Inl e
                      | Inr i \<Rightarrow>
                          if \<not> var (trail s2 ! i) < length (vardata s2) then Inl Undefined
                          else if nb1 - 1 > 0
                          then analyze_loop (reason s2 (var (trail s2 ! i))) (Some (trail s2 ! i))
                                 out1 (nb1 - 1) i
                                 (s2\<lparr> seen := (seen s2)[var (trail s2 ! i) := False] \<rparr>)
                          else Inr (trail s2 ! i, out1,
                                 s2\<lparr> seen := (seen s2)[var (trail s2 ! i) := False] \<rparr>))))))"
  by pat_completeness auto

text \<open>\<^verbatim>\<open>computeLBD\<close>; \<^verbatim>\<open>FLAG\<close> is an \<^verbatim>\<open>unsigned int\<close>.\<close>

fun lbd_loop :: "lit list \<Rightarrow> nat \<Rightarrow> Solver \<Rightarrow> (nat \<times> Solver) res" where
  "lbd_loop [] nblevels s = Inr (nblevels, s)"
| "lbd_loop (q # qs) nblevels s =
     (if \<not> var q < length (vardata s) then Inl Undefined
      else if \<not> level s (var q) < length (levelTagged s) then Inl Undefined
      else if levelTagged s ! level s (var q) \<noteq> FLAG s
      then lbd_loop qs (nblevels + 1)
             (s\<lparr> levelTagged := (levelTagged s)[level s (var q) := FLAG s] \<rparr>)
      else lbd_loop qs nblevels s)"

definition computeLBD :: "lit list \<Rightarrow> Solver \<Rightarrow> (nat \<times> Solver) res" where
  "computeLBD lits s = lbd_loop lits 0 (s\<lparr> FLAG := FLAG s + 1 \<rparr>)"

fun clear_seen :: "lit list \<Rightarrow> Solver \<Rightarrow> Solver res" where
  "clear_seen [] s = Inr s"
| "clear_seen (q # qs) s =
     (if \<not> var q < length (seen s) then Inl Undefined
      else clear_seen qs (s\<lparr> seen := (seen s)[var q := False] \<rparr>))"

text \<open>
  The index \<^verbatim>\<open>max_i\<close> found by the loop
  \<^verbatim>\<open>for(int i = 2; i < out_learnt.size(); i++)\<close>.
\<close>

definition analyze_max :: "Solver \<Rightarrow> lit list \<Rightarrow> nat" where
  "analyze_max s out =
     fold (\<lambda>i max_i. if level s (var (out ! i)) > level s (var (out ! max_i)) then i else max_i)
       [2 ..< length out] 1"

text \<open>
  The part of \<^verbatim>\<open>analyze\<close> after the resolution loop, which sets \<^verbatim>\<open>out_learnt[0]\<close>
  and finds the backtrack level; it gives \<^verbatim>\<open>out_learnt\<close> and \<^verbatim>\<open>out_btlevel\<close>.
\<close>

definition analyze_finish :: "Solver \<Rightarrow> lit \<Rightarrow> lit list \<Rightarrow> (lit list \<times> nat) res" where
  "analyze_finish s p out =
     (let out1 = out[0 := neg p] in
      if length out1 = 1 then Inr (out1, 0)
      else if \<exists>q \<in> set (tl out1). \<not> var q < length (vardata s) then Inl Undefined
      else
        let max_i = analyze_max s out1;
            pm = out1 ! max_i
        in Inr (out1[max_i := out1 ! 1, 1 := pm], level s (var pm)))"

text \<open>
  \<^verbatim>\<open>analyze\<close> gives \<^verbatim>\<open>out_learnt\<close>, \<^verbatim>\<open>out_btlevel\<close> and \<^verbatim>\<open>lbd\<close>. The slot that
  \<^verbatim>\<open>out_learnt.push()\<close> leaves for the asserting literal is written before it is read;
  it holds \<open>0\<close> until then.
\<close>

definition analyze :: "cref \<Rightarrow> Solver \<Rightarrow> (lit list \<times> nat \<times> nat \<times> Solver) res" where
  "analyze confl s =
     thn (analyze_loop (Some confl) None [0] 0 (length (trail s)) s) (\<lambda>(p, out, s1).
       thn (analyze_finish s1 p out) (\<lambda>(out_learnt, out_btlevel).
         thn (computeLBD out_learnt s1) (\<lambda>(lbd, s2).
           thn (clear_seen out_learnt s2) (\<lambda>s3.
             Inr (out_learnt, out_btlevel, lbd, s3)))))"

subsection \<open>Attaching and removing clauses\<close>

definition attachClause :: "cref \<Rightarrow> Solver \<Rightarrow> Solver res" where
  "attachClause cr s =
     (case mem (ca s) cr of
        None \<Rightarrow> Inl Undefined
      | Some c \<Rightarrow>
          if \<not> length (c_lits c) > 1 then Inl AssertFailed
          else
            let l0 = c_lits c ! 0; l1 = c_lits c ! 1 in
            if \<not> (neg l0 < length (watches s) \<and> neg l1 < length (watches s)) then Inl Undefined
            else
              let ws1 = (watches s)[neg l0 := watches s ! neg l0 @ [Watcher cr l1]];
                  ws2 = ws1[neg l1 := ws1 ! neg l1 @ [Watcher cr l0]]
              in Inr (s\<lparr> watches := ws2,
                          nb_lits_in_learnts :=
                            (if c_learnt c then nb_lits_in_learnts s + of_nat (length (c_lits c))
                             else nb_lits_in_learnts s) \<rparr>))"

text \<open>
  \<^verbatim>\<open>detachClause(cr)\<close> with \<^verbatim>\<open>strict = false\<close>, its only use: the two watch lists
  are smudged, which the model of \<^verbatim>\<open>cleanAll\<close> above does not need.
\<close>

definition detachClause :: "cref \<Rightarrow> Solver \<Rightarrow> Solver res" where
  "detachClause cr s =
     (case mem (ca s) cr of
        None \<Rightarrow> Inl Undefined
      | Some c \<Rightarrow>
          if \<not> length (c_lits c) > 1 then Inl AssertFailed
          else Inr (s\<lparr> nb_lits_in_learnts :=
                          (if c_learnt c then nb_lits_in_learnts s - of_nat (length (c_lits c))
                           else nb_lits_in_learnts s) \<rparr>))"

text \<open>
  \<^verbatim>\<open>locked(c)\<close> for the clause \<open>c\<close> stored at \<open>cr\<close>; the comparison of addresses
  \<^verbatim>\<open>ca.lea(reason(var(c[0]))) == &c\<close> is the comparison of the references.
\<close>

definition locked :: "Solver \<Rightarrow> cref \<Rightarrow> Clause \<Rightarrow> bool res" where
  "locked s cr c =
     (case c_lits c of
        [] \<Rightarrow> Inl Undefined
      | q # _ \<Rightarrow>
          if \<not> var q < length (assigns s) then Inl Undefined
          else if valueL s q \<noteq> l_True then Inr False
          else if \<not> var q < length (vardata s) then Inl Undefined
          else Inr (reason s (var q) \<noteq> None \<and> reason s (var q) = Some cr))"

definition removeClause :: "cref \<Rightarrow> Solver \<Rightarrow> Solver res" where
  "removeClause cr s =
     (case mem (ca s) cr of
        None \<Rightarrow> Inl Undefined
      | Some c \<Rightarrow>
          thn (detachClause cr s) (\<lambda>s1.
            thn (locked s1 cr c) (\<lambda>lk.
              let s2 = (if lk then s1\<lparr> vardata := (vardata s1)[var (c_lits c ! 0) :=
                                      (vardata s1 ! var (c_lits c ! 0))\<lparr> vd_reason := None \<rparr>] \<rparr>
                        else s1)
              in thn (ca_free cr (ca_set cr (c\<lparr> c_mark := 1 \<rparr>) (ca s2)))
                   (\<lambda>a. Inr (s2\<lparr> ca := a, nb_removed_clauses := nb_removed_clauses s2 + 1 \<rparr>)))))"

subsection \<open>Garbage collection\<close>

definition ca_reloc :: "cref \<Rightarrow> ClauseAllocator \<Rightarrow> ClauseAllocator
    \<Rightarrow> (cref \<times> ClauseAllocator \<times> ClauseAllocator) res" where
  "ca_reloc cr a to =
     (case mem a cr of
        None \<Rightarrow> Inl Undefined
      | Some c \<Rightarrow>
          (case c_lits c of
             [] \<Rightarrow> Inl Undefined
           | f # _ \<Rightarrow>
               if c_reloced c then Inr (f, a, to)
               else
                 let (cr1, to1) = ca_alloc_clause c to
                 in Inr (cr1,
                      ca_set cr (c\<lparr> c_reloced := True, c_lits := (c_lits c)[0 := cr1] \<rparr>) a,
                      to1)))"

fun reloc_ws :: "Watcher list \<Rightarrow> ClauseAllocator \<Rightarrow> ClauseAllocator
    \<Rightarrow> (Watcher list \<times> ClauseAllocator \<times> ClauseAllocator) res" where
  "reloc_ws [] a to = Inr ([], a, to)"
| "reloc_ws (w # ws) a to =
     (case ca_reloc (cref w) a to of
        Inl e \<Rightarrow> Inl e
      | Inr (cr1, a1, to1) \<Rightarrow>
          (case reloc_ws ws a1 to1 of
             Inl e \<Rightarrow> Inl e
           | Inr (ws1, a2, to2) \<Rightarrow> Inr (Watcher cr1 (blocker w) # ws1, a2, to2)))"

fun reloc_watches :: "lit list \<Rightarrow> Solver \<Rightarrow> ClauseAllocator \<Rightarrow> (Solver \<times> ClauseAllocator) res" where
  "reloc_watches [] s to = Inr (s, to)"
| "reloc_watches (p # ps) s to =
     (if \<not> p < length (watches s) then Inl Undefined
      else (case reloc_ws (watches s ! p) (ca s) to of
              Inl e \<Rightarrow> Inl e
            | Inr (ws1, a1, to1) \<Rightarrow>
                reloc_watches ps (s\<lparr> watches := (watches s)[p := ws1], ca := a1 \<rparr>) to1))"

fun reloc_reasons :: "lit list \<Rightarrow> Solver \<Rightarrow> ClauseAllocator \<Rightarrow> (Solver \<times> ClauseAllocator) res" where
  "reloc_reasons [] s to = Inr (s, to)"
| "reloc_reasons (q # qs) s to =
     (if \<not> var q < length (vardata s) then Inl Undefined
      else (case reason s (var q) of
              None \<Rightarrow> reloc_reasons qs s to
            | Some r \<Rightarrow>
               (case mem (ca s) r of
                  None \<Rightarrow> Inl Undefined
                | Some c \<Rightarrow>
                   (case (if c_reloced c then Inr True else locked s r c) of
                      Inl e \<Rightarrow> Inl e
                    | Inr b \<Rightarrow>
                        if b then
                          (case ca_reloc r (ca s) to of
                             Inl e \<Rightarrow> Inl e
                           | Inr (r1, a1, to1) \<Rightarrow>
                               reloc_reasons qs
                                 (s\<lparr> vardata := (vardata s)[var q :=
                                        (vardata s ! var q)\<lparr> vd_reason := Some r1 \<rparr>],
                                     ca := a1 \<rparr>) to1)
                        else reloc_reasons qs s to))))"

fun reloc_list :: "cref list \<Rightarrow> ClauseAllocator \<Rightarrow> ClauseAllocator
    \<Rightarrow> (cref list \<times> ClauseAllocator \<times> ClauseAllocator) res" where
  "reloc_list [] a to = Inr ([], a, to)"
| "reloc_list (cr # crs) a to =
     (case ca_reloc cr a to of
        Inl e \<Rightarrow> Inl e
      | Inr (cr1, a1, to1) \<Rightarrow>
          (case reloc_list crs a1 to1 of
             Inl e \<Rightarrow> Inl e
           | Inr (crs1, a2, to2) \<Rightarrow> Inr (cr1 # crs1, a2, to2)))"

definition relocAll :: "Solver \<Rightarrow> ClauseAllocator \<Rightarrow> (Solver \<times> ClauseAllocator) res" where
  "relocAll s to =
     thn (reloc_watches [0 ..< 2 * nVars s] (cleanAll s) to) (\<lambda>(s1, to1).
       thn (reloc_reasons (trail s1) s1 to1) (\<lambda>(s2, to2).
         thn (reloc_list (learnts s2) (ca s2) to2) (\<lambda>(ls, a3, to3).
           thn (reloc_list (clauses s2) a3 to3) (\<lambda>(cs, a4, to4).
             Inr (s2\<lparr> learnts := ls, clauses := cs, ca := a4 \<rparr>, to4)))))"

definition garbageCollect :: "Solver \<Rightarrow> Solver res" where
  "garbageCollect s = thn (relocAll s ca_empty) (\<lambda>(s1, to). Inr (s1\<lparr> ca := to \<rparr>))"

definition checkGarbage :: "Solver \<Rightarrow> Solver res" where
  "checkGarbage s =
     (if real (ca_wasted (ca s)) > real (ca_size (ca s)) * garbage_frac s then garbageCollect s
      else Inr s)"

subsection \<open>reduceDB\<close>

definition reduceDB_lt :: "ClauseAllocator \<Rightarrow> cref \<Rightarrow> cref \<Rightarrow> bool" where
  "reduceDB_lt a x y =
     (let cx = the (mem a x); cy = the (mem a y) in
      if length (c_lits cx) > 2 \<and> length (c_lits cy) = 2 then True
      else if length (c_lits cy) > 2 \<and> length (c_lits cx) = 2 then False
      else if length (c_lits cx) = 2 \<and> length (c_lits cy) = 2 then False
      else if c_lbd cx > c_lbd cy then True
      else if c_lbd cx < c_lbd cy then False
      else c_activity cx < c_activity cy)"

text \<open>
  Modelled from the spec: \<^verbatim>\<open>mtl/Sort.h\<close> is not among the sources. \<^verbatim>\<open>sort\<close> with a
  comparator is a stable sort; \<^verbatim>\<open>sort\<close> on literals sorts by the code of the
  literal. The comparator of \<^verbatim>\<open>reduceDB\<close> reads the clauses of \<^verbatim>\<open>learnts\<close> and their
  LBD and activity: a dangling reference there is undefined, a clause that is not
  learnt fails the check of the accessors.
\<close>

fun insort_lt :: "('a \<Rightarrow> 'a \<Rightarrow> bool) \<Rightarrow> 'a \<Rightarrow> 'a list \<Rightarrow> 'a list" where
  "insort_lt lt x [] = [x]"
| "insort_lt lt x (y # ys) = (if lt y x then y # insort_lt lt x ys else x # y # ys)"

definition sort_lt :: "('a \<Rightarrow> 'a \<Rightarrow> bool) \<Rightarrow> 'a list \<Rightarrow> 'a list" where
  "sort_lt lt xs = foldr (insort_lt lt) xs []"

definition sort_learnts :: "Solver \<Rightarrow> cref list res" where
  "sort_learnts s =
     (if \<exists>cr \<in> set (learnts s). mem (ca s) cr = None then Inl Undefined
      else if \<exists>cr \<in> set (learnts s). \<not> c_learnt (the (mem (ca s) cr)) then Inl AssertFailed
      else Inr (sort_lt (reduceDB_lt (ca s)) (learnts s)))"

text \<open>
  The loop \<^verbatim>\<open>for(i = j = 0; i < learnts.size(); i++)\<close>: the references still to
  visit, the index \<open>i\<close>, the size \<open>n\<close> of \<^verbatim>\<open>learnts\<close> and the references kept so far
  (\<^verbatim>\<open>learnts[0 .. j]\<close>).
\<close>

fun reduce_loop :: "cref list \<Rightarrow> nat \<Rightarrow> nat \<Rightarrow> cref list \<Rightarrow> Solver \<Rightarrow> (cref list \<times> Solver) res" where
  "reduce_loop [] i n kept s = Inr (kept, s)"
| "reduce_loop (cr # crs) i n kept s =
     (case mem (ca s) cr of
        None \<Rightarrow> Inl Undefined
      | Some c \<Rightarrow>
          if length (c_lits c) > 2 then
            (case locked s cr c of
               Inl e \<Rightarrow> Inl e
             | Inr lk \<Rightarrow>
                 if \<not> lk \<and> i < n div 2 then
                   (case removeClause cr s of
                      Inl e \<Rightarrow> Inl e
                    | Inr s1 \<Rightarrow> reduce_loop crs (i + 1) n kept s1)
                 else reduce_loop crs (i + 1) n (kept @ [cr]) s)
          else reduce_loop crs (i + 1) n (kept @ [cr]) s)"

text \<open>\<^verbatim>\<open>reduceDB\<close> up to the call of \<^verbatim>\<open>checkGarbage\<close>, and all of it.\<close>

definition reduceDB_sweep :: "Solver \<Rightarrow> Solver res" where
  "reduceDB_sweep s =
     (let s1 = s\<lparr> nb_reducedb := nb_reducedb s + 1 \<rparr> in
      thn (sort_learnts s1) (\<lambda>ls.
        thn (reduce_loop ls 0 (length ls) [] (s1\<lparr> learnts := ls \<rparr>)) (\<lambda>(kept, s2).
          Inr (s2\<lparr> learnts := kept \<rparr>))))"

definition reduceDB :: "Solver \<Rightarrow> Solver res" where
  "reduceDB s = thn (reduceDB_sweep s) checkGarbage"

subsection \<open>addClause_\<close>

text \<open>
  The loop \<^verbatim>\<open>for(i = j = 0, p = lit_Undef; i < ps.size(); i++)\<close> on the vector
  \<^verbatim>\<open>ps\<close>, which it overwrites in place. It gives the vector and, unless it left
  with \<^verbatim>\<open>return true\<close>, the final \<open>j\<close>.
\<close>

function add_loop :: "Solver \<Rightarrow> lit list \<Rightarrow> nat \<Rightarrow> nat \<Rightarrow> lit option \<Rightarrow> (lit list \<times> nat option) res" where
  "add_loop s ps i j p =
     (if i < length ps then
        (case value_lit s (ps ! i) of
           Inl e \<Rightarrow> Inl e
         | Inr v \<Rightarrow>
             if v = l_True \<or> Some (ps ! i) = map_option neg p then Inr (ps, None)
             else if v \<noteq> l_False \<and> Some (ps ! i) \<noteq> p
             then add_loop s (ps[j := ps ! i]) (i + 1) (j + 1) (Some (ps ! i))
             else add_loop s ps (i + 1) j p)
      else Inr (ps, Some j))"
  by pat_completeness auto
termination
  by (relation "measure (\<lambda>(s, ps, i, j, p). length ps - i)") auto

declare add_loop.simps [simp del]

text \<open>
  \<^verbatim>\<open>addClause_\<close> (here \<open>addClause'\<close>, as a name cannot end with an underscore)
  gives its result, the vector \<^verbatim>\<open>ps\<close> as the call leaves it, and the state.
\<close>

definition addClause' :: "lit list \<Rightarrow> Solver \<Rightarrow> (bool \<times> lit list \<times> Solver) res" where
  "addClause' ps s =
     (if decisionLevel s \<noteq> 0 then Inl AssertFailed
      else if \<not> ok s then Inr (False, ps, s)
      else
        thn (add_loop s (sort ps) 0 0 None) (\<lambda>(ps1, r).
          case r of
            None \<Rightarrow> Inr (True, ps1, s)
          | Some j \<Rightarrow>
              let ps2 = take j ps1 in
              if length ps2 = 0 then Inr (False, ps2, s\<lparr> ok := False \<rparr>)
              else if length ps2 = 1 then
                thn (uncheckedEnqueue (ps2 ! 0) None s) (\<lambda>s1.
                  thn (propagate s1) (\<lambda>(confl, s2).
                    Inr (confl = None, ps2, s2\<lparr> ok := (confl = None) \<rparr>)))
              else
                let (cr, a) = ca_alloc ps2 False (ca s) in
                thn (attachClause cr (s\<lparr> ca := a, clauses := clauses s @ [cr] \<rparr>))
                  (\<lambda>s2. Inr (True, ps2, s2))))"

subsection \<open>Budgets\<close>

definition setConfBudget :: "64 word \<Rightarrow> Solver \<Rightarrow> Solver" where
  "setConfBudget x s = s\<lparr> conflict_budget := conflicts s + x \<rparr>"

definition setPropBudget :: "64 word \<Rightarrow> Solver \<Rightarrow> Solver" where
  "setPropBudget x s = s\<lparr> propagation_budget := propagations s + x \<rparr>"

definition budgetOff :: "Solver \<Rightarrow> Solver" where
  "budgetOff s = s\<lparr> conflict_budget := - 1, propagation_budget := - 1 \<rparr>"

definition withinBudget :: "Solver \<Rightarrow> bool" where
  "withinBudget s =
     (\<not> asynch_interrupt s \<and>
      (sint (conflict_budget s) < 0 \<or> conflicts s < conflict_budget s) \<and>
      (sint (propagation_budget s) < 0 \<or> propagations s < propagation_budget s))"

subsection \<open>search\<close>

text \<open>
  \<^verbatim>\<open>printIntermediateStats\<close> changes nothing in the state; it divides
  \<^verbatim>\<open>nb_resolutions\<close> by \<^verbatim>\<open>conflicts\<close> and \<^verbatim>\<open>nb_lits_in_learnts\<close> by
  \<^verbatim>\<open>learnts.size()\<close>.
\<close>

definition printIntermediateStats :: "Solver \<Rightarrow> unit res" where
  "printIntermediateStats s =
     (if conflicts s = 0 \<or> learnts s = [] then Inl StatsDivByZero else Inr ())"

text \<open>
  The conflict branch of the loop of \<^verbatim>\<open>search\<close>, from \<^verbatim>\<open>trailQueue.push\<close> on.
\<close>

definition search_learn :: "lit list \<Rightarrow> nat \<Rightarrow> Solver \<Rightarrow> Solver res" where
  "search_learn learnt_clause lbd s =
     (if length learnt_clause = 1 then uncheckedEnqueue (learnt_clause ! 0) None s
      else
        let (cr, a) = ca_alloc learnt_clause True (ca s) in
        thn (attachClause cr (s\<lparr> ca := a, learnts := learnts s @ [cr] \<rparr>)) (\<lambda>s1.
          thn (claBumpActivity cr s1) (\<lambda>s2.
            thn (uncheckedEnqueue (learnt_clause ! 0) (Some cr) s2) (\<lambda>s3.
              case mem (ca s3) cr of
                None \<Rightarrow> Inl Undefined
              | Some c \<Rightarrow> Inr (s3\<lparr> ca := ca_set cr (c\<lparr> c_lbd := lbd \<rparr>) (ca s3) \<rparr>)))))"

definition search_conflict :: "cref \<Rightarrow> Solver \<Rightarrow> Solver res" where
  "search_conflict confl s =
     (let s1 = s\<lparr> trailQueue := bq_push (length (trail s)) (trailQueue s) \<rparr>;
          s2 = (if conflicts s1 > 10000 \<and> bq_isvalid (lbdQueue s1)
                   \<and> real (length (trail s1)) > 14 / 10 * bq_getavg (trailQueue s1)
                then s1\<lparr> lbdQueue := bq_fastclear (lbdQueue s1) \<rparr> else s1)
      in thn (analyze confl s2) (\<lambda>(learnt_clause, backtrack_level, lbd, s3).
           thn (cancelUntil backtrack_level
                  (s3\<lparr> lbdQueue := bq_push lbd (lbdQueue s3), sumLBD := sumLBD s3 + real lbd \<rparr>))
             (\<lambda>s4.
               thn (search_learn learnt_clause lbd s4) (\<lambda>s5.
                 let s6 = claDecayActivity (varDecayActivity s5) in
                 if unat (conflicts s6) mod 1000 = 0 \<and> verbosity s6 \<ge> 1
                 then thn (printIntermediateStats s6) (\<lambda>_. Inr s6)
                 else Inr s6))))"

text \<open>
  The other branch: \<open>Some status\<close> when \<^verbatim>\<open>search\<close> returns, \<open>None\<close> when the loop
  goes on. The restart test divides \<^verbatim>\<open>sumLBD\<close> by \<^verbatim>\<open>conflicts\<close>.
\<close>

definition search_decide :: "Solver \<Rightarrow> (lbool option \<times> Solver) res" where
  "search_decide s =
     thn (if conflicts s \<ge> nextReduceDB s
          then thn (reduceDB s) (\<lambda>s1.
                 Inr (s1\<lparr> nextReduceDB := conflicts s1 + 2000 + 1000 * nb_reducedb s1 \<rparr>))
          else Inr s)
       (\<lambda>s2. thn (pickBranchLit s2) (\<lambda>(next, s3).
          case next of
            None \<Rightarrow> Inr (Some l_True, s3)
          | Some q \<Rightarrow> thn (uncheckedEnqueue q None (newDecisionLevel s3))
                        (\<lambda>s4. Inr (None, s4))))"

definition search_no_conflict :: "Solver \<Rightarrow> (lbool option \<times> Solver) res" where
  "search_no_conflict s =
     (if bq_isvalid (lbdQueue s) then
        (if conflicts s = 0 then Inl RestartDivByZero
         else if bq_getavg (lbdQueue s) * (8 / 10) > sumLBD s / real (unat (conflicts s))
         then thn (cancelUntil 0 (s\<lparr> lbdQueue := bq_fastclear (lbdQueue s) \<rparr>))
                (\<lambda>s1. Inr (Some l_Undef, s1))
         else search_decide s)
      else search_decide s)"

text \<open>
  The loop \<^verbatim>\<open>for(;;)\<close> of \<^verbatim>\<open>search\<close>; the first argument bounds the number of its
  turns.
\<close>

fun search_loop :: "nat \<Rightarrow> Solver \<Rightarrow> (lbool \<times> Solver) res" where
  "search_loop 0 s = Inl OutOfFuel"
| "search_loop (Suc n) s =
     (case propagate s of
        Inl e \<Rightarrow> Inl e
      | Inr (Some confl, s1) \<Rightarrow>
          if decisionLevel s1 = 0 then Inr (l_False, s1\<lparr> conflicts := conflicts s1 + 1 \<rparr>)
          else (case search_conflict confl (s1\<lparr> conflicts := conflicts s1 + 1 \<rparr>) of
                  Inl e \<Rightarrow> Inl e
                | Inr s2 \<Rightarrow> search_loop n s2)
      | Inr (None, s1) \<Rightarrow>
          (case search_no_conflict s1 of
             Inl e \<Rightarrow> Inl e
           | Inr (Some status, s2) \<Rightarrow> Inr (status, s2)
           | Inr (None, s2) \<Rightarrow> search_loop n s2))"

text \<open>\<^verbatim>\<open>search(nof_conflicts)\<close>; the body never reads \<^verbatim>\<open>nof_conflicts\<close>.\<close>

definition search :: "nat \<Rightarrow> int \<Rightarrow> Solver \<Rightarrow> (lbool \<times> Solver) res" where
  "search fuel nof_conflicts s = (if \<not> ok s then Inl AssertFailed else search_loop fuel s)"

subsection \<open>solve\<close>

text \<open>
  \<^verbatim>\<open>luby(y, x)\<close>: the first loop finds the size and the index of the subsequence that
  contains \<open>x\<close>, the second one descends in it. From a size below 3 the second loop
  would compute a remainder modulo 0.
\<close>

function luby_up :: "nat \<Rightarrow> nat \<Rightarrow> nat \<Rightarrow> nat \<times> nat" where
  "luby_up x sz seq = (if sz < x + 1 then luby_up x (2 * sz + 1) (seq + 1) else (sz, seq))"
  by pat_completeness auto
termination
  by (relation "measure (\<lambda>(x, sz, seq). x + 1 - sz)") auto

declare luby_up.simps [simp del]

function luby_down :: "nat \<Rightarrow> int \<Rightarrow> nat \<Rightarrow> int res" where
  "luby_down sz seq x =
     (if sz - 1 \<noteq> x then
        (if sz < 3 then Inl Undefined
         else luby_down ((sz - 1) div 2) (seq - 1) (x mod ((sz - 1) div 2)))
      else Inr seq)"
  by pat_completeness auto
termination
  by (relation "measure (\<lambda>(sz, seq, x). sz)") auto

declare luby_down.simps [simp del]

definition luby :: "real \<Rightarrow> nat \<Rightarrow> real res" where
  "luby y x =
     (let (sz, seq) = luby_up x 1 0
      in thn (luby_down sz (int seq) x) (\<lambda>sq. Inr (y powi sq)))"

text \<open>
  The loop \<^verbatim>\<open>while(status == l_Undef)\<close> of \<^verbatim>\<open>solve_\<close>, entered with
  \<^verbatim>\<open>status == l_Undef\<close>. The first argument bounds the number of its turns, the second
  one the turns of each \<^verbatim>\<open>search\<close>.
\<close>

fun solve_loop :: "nat \<Rightarrow> nat \<Rightarrow> nat \<Rightarrow> Solver \<Rightarrow> (lbool \<times> Solver) res" where
  "solve_loop 0 fuel curr_restarts s = Inl OutOfFuel"
| "solve_loop (Suc m) fuel curr_restarts s =
     (case (if luby_restart s then luby 2 curr_restarts else Inr ((15 / 10) ^ curr_restarts)) of
        Inl e \<Rightarrow> Inl e
      | Inr rest_base \<Rightarrow>
          (case search fuel \<lfloor>rest_base * 32\<rfloor> (s\<lparr> starts := starts s + 1 \<rparr>) of
             Inl e \<Rightarrow> Inl e
           | Inr (status, s1) \<Rightarrow>
               if \<not> withinBudget s1 then Inr (status, s1)
               else if status = l_Undef then solve_loop m fuel (curr_restarts + 1) s1
               else Inr (status, s1)))"

text \<open>\<^verbatim>\<open>solve_\<close> (here \<open>solve'\<close>) and \<^verbatim>\<open>solve\<close>.\<close>

definition solve' :: "nat \<Rightarrow> Solver \<Rightarrow> (lbool \<times> Solver) res" where
  "solve' fuel s =
     (if \<not> ok s then Inr (l_False, s\<lparr> model := [] \<rparr>)
      else
        thn (solve_loop fuel fuel 0 (s\<lparr> model := [] \<rparr>)) (\<lambda>(status, s1).
          thn (if status = l_True
               then (if \<not> nVars s1 \<le> length (assigns s1) then Inl Undefined
                     else Inr (s1\<lparr> model := take (nVars s1) (assigns s1) \<rparr>))
               else Inr s1)
            (\<lambda>s2. thn (cancelUntil 0 s2) (\<lambda>s3. Inr (status, s3)))))"

definition solve :: "nat \<Rightarrow> Solver \<Rightarrow> (lbool \<times> Solver) res" where
  "solve fuel s = solve' fuel (budgetOff s)"

section \<open>The loop of addClause_ on lists\<close>

text \<open>
  What the loop of \<^verbatim>\<open>addClause_\<close> does with the literals it still has to read, told
  without the vector: the literals it keeps, in order, and whether it leaves with
  \<^verbatim>\<open>return true\<close>. \<open>p\<close> is the literal kept last.
\<close>

fun add_scan :: "Solver \<Rightarrow> lit option \<Rightarrow> lit list \<Rightarrow> lit list \<times> bool" where
  "add_scan s p [] = ([], False)"
| "add_scan s p (q # qs) =
     (if valueL s q = l_True \<or> Some q = map_option neg p then ([], True)
      else if valueL s q \<noteq> l_False \<and> Some q \<noteq> p
      then (q # fst (add_scan s (Some q) qs), snd (add_scan s (Some q) qs))
      else add_scan s p qs)"

section \<open>Frames\<close>

text \<open>
  What a group of operations leaves alone: the state with the fields that the group may
  write set to fixed values. Two states with the same frame differ in those fields only.
\<close>

definition fr_propagate :: "Solver \<Rightarrow> Solver" where
  "fr_propagate s = s\<lparr> qhead := 0, propagations := 0, watches := [], ca := ca_empty,
     assigns := [], vardata := [], trail := [] \<rparr>"

definition fr_analyze :: "Solver \<Rightarrow> Solver" where
  "fr_analyze s = s\<lparr> nb_resolutions := 0, ca := ca_empty, cla_inc := 0, activity := [],
     var_inc := 0, seen := [], FLAG := 0, levelTagged := [] \<rparr>"

definition fr_reduce :: "Solver \<Rightarrow> Solver" where
  "fr_reduce s = s\<lparr> nb_lits_in_learnts := 0, vardata := [], ca := ca_empty,
     nb_removed_clauses := 0, nb_reducedb := 0, learnts := [], watches := [], clauses := [] \<rparr>"

definition fr_cancel :: "Solver \<Rightarrow> Solver" where
  "fr_cancel s = s\<lparr> assigns := [], polarity := [], order_heap := [], qhead := 0, trail := [],
     trail_lim := [] \<rparr>"

definition fr_pick :: "Solver \<Rightarrow> Solver" where
  "fr_pick s = s\<lparr> order_heap := [], decisions := 0 \<rparr>"

definition fr_learn :: "Solver \<Rightarrow> Solver" where
  "fr_learn s = s\<lparr> ca := ca_empty, learnts := [], watches := [], nb_lits_in_learnts := 0,
     cla_inc := 0, assigns := [], vardata := [], trail := [] \<rparr>"

section \<open>Conditions on the counters of search\<close>

text \<open>
  The faults of the operations below \<^verbatim>\<open>search\<close>: a failed assertion or an access
  outside a vector or the arena.
\<close>

definition plain :: "fault \<Rightarrow> bool" where
  "plain e = (e = AssertFailed \<or> e = Undefined)"

text \<open>
  \<^verbatim>\<open>lbdQueue\<close> holds no more values than conflicts were counted, and its capacity is
  not zero.
\<close>

definition lbd_counted :: "Solver \<Rightarrow> bool" where
  "lbd_counted s =
     (length (bq_elems (lbdQueue s)) \<le> unat (conflicts s) \<and> 1 \<le> bq_maxsize (lbdQueue s))"

section \<open>The implication graph of a conflict\<close>


text \<open>The literals of the clause stored at a reference.\<close>

definition clause_at :: "Solver \<Rightarrow> cref \<Rightarrow> lit list" where
  "clause_at s cr = (case mem (ca s) cr of None \<Rightarrow> [] | Some c \<Rightarrow> c_lits c)"

text \<open>
  The implication graph of a conflict, after the glossary of the spec (First-UIP). Its
  nodes are the positions of the trail and, as the node \<open>|trail|\<close>, the conflict itself.
  The antecedents of a trail literal are the literals of its reason other than the first
  one (the ones \<^verbatim>\<open>analyze\<close> reads), those of the conflict are the literals of the
  conflicting clause. There is an edge from \<open>j\<close> to a later node \<open>k\<close> when the negation
  of the trail literal at \<open>j\<close> is an antecedent of \<open>k\<close>.
\<close>

definition last_decision :: "Solver \<Rightarrow> nat" where
  "last_decision s = last (trail_lim s)"

definition antecedents :: "Solver \<Rightarrow> cref \<Rightarrow> nat \<Rightarrow> lit list" where
  "antecedents s confl k =
     (if k = length (trail s) then clause_at s confl
      else case reason s (var (trail s ! k)) of None \<Rightarrow> [] | Some r \<Rightarrow> tl (clause_at s r))"

definition edge :: "Solver \<Rightarrow> cref \<Rightarrow> nat \<Rightarrow> nat \<Rightarrow> bool" where
  "edge s confl j k =
     (j < k \<and> k \<le> length (trail s) \<and> neg (trail s ! j) \<in> set (antecedents s confl k))"

text \<open>
  \<open>reaches s confl u j\<close>: there is a path from the node \<open>j\<close> to the conflict; when \<open>u\<close>
  is a node, a path that does not pass through \<open>u\<close>.
\<close>

function reaches :: "Solver \<Rightarrow> cref \<Rightarrow> nat option \<Rightarrow> nat \<Rightarrow> bool" where
  "reaches s confl u j =
     (j = length (trail s) \<or>
      (j < length (trail s) \<and> Some j \<noteq> u \<and>
       (\<exists>k \<in> set [j + 1 ..< length (trail s) + 1]. edge s confl j k \<and> reaches s confl u k)))"
  by pat_completeness auto
termination
  by (relation "measure (\<lambda>(s, confl, u, j). length (trail s) + 1 - j)") auto

declare reaches.simps [simp del]

text \<open>
  A unique implication point: a node at or after the last decision such that every path
  from the last decision to the conflict passes through it (and there is such a path).
  The first one is the one closest to the conflict, the last one on the trail.
\<close>

definition uip :: "Solver \<Rightarrow> cref \<Rightarrow> nat \<Rightarrow> bool" where
  "uip s confl u =
     (last_decision s \<le> u \<and> u < length (trail s) \<and> reaches s confl None (last_decision s) \<and>
      (u = last_decision s \<or> \<not> reaches s confl (Some u) (last_decision s)))"

definition first_uip :: "Solver \<Rightarrow> cref \<Rightarrow> nat \<Rightarrow> bool" where
  "first_uip s confl u =
     (uip s confl u \<and> (\<forall>v \<in> set [0 ..< length (trail s)]. uip s confl v \<longrightarrow> v \<le> u))"

text \<open>
  The state in which \<^verbatim>\<open>search\<close> calls \<^verbatim>\<open>analyze\<close>: some decision was made; the trail
  holds each variable once; the level of a trail literal is the number of decisions made
  up to it; the literals of the conflicting clause, and those of the reason of each
  literal propagated since the last decision other than its first one, are false by the
  trail, earlier than what they imply, and one of them was assigned at the current level;
  no variable of the trail is marked in \<^verbatim>\<open>seen\<close>.
\<close>

definition analyze_pre :: "cref \<Rightarrow> Solver \<Rightarrow> bool" where
  "analyze_pre confl s =
     (trail_lim s \<noteq> [] \<and> sorted (trail_lim s) \<and> last_decision s < length (trail s) \<and>
      distinct (map var (trail s)) \<and>
      (\<forall>j \<in> set [0 ..< length (trail s)].
          level s (var (trail s ! j)) = length (filter (\<lambda>c. c \<le> j) (trail_lim s))) \<and>
      (\<forall>k \<in> set [last_decision s + 1 ..< length (trail s) + 1].
          (\<forall>q \<in> set (antecedents s confl k). \<exists>j \<in> set [0 ..< k]. trail s ! j = neg q) \<and>
          (\<exists>j \<in> set [last_decision s ..< k]. edge s confl j k)) \<and>
      (\<forall>j \<in> set [0 ..< length (trail s)].
          var (trail s ! j) < length (seen s) \<and> \<not> seen s ! var (trail s ! j)))"

text \<open>The mark of the variable of the trail literal at position \<open>j\<close>.\<close>

definition seen_at :: "Solver \<Rightarrow> nat \<Rightarrow> bool" where
  "seen_at s j = seen s ! var (trail s ! j)"

text \<open>
  The invariant of the loop of \<^verbatim>\<open>analyze\<close> when it is about to read the antecedents of
  the node \<open>n\<close>: among the positions of the current level, the marked ones are those below
  \<open>n\<close> with an edge to a node after \<open>n\<close> that reaches the conflict;
  \<^verbatim>\<open>nbResolutionsToPerform\<close> counts them; no node from \<open>n\<close> on is a unique implication
  point; the literals collected so far are false below the last decision.
\<close>

definition analyze_inv :: "Solver \<Rightarrow> cref \<Rightarrow> cref option \<Rightarrow> lit option \<Rightarrow> lit list \<Rightarrow> int \<Rightarrow> nat
    \<Rightarrow> Solver \<Rightarrow> bool" where
  "analyze_inv s0 confl0 confl p out nb n s =
     (trail s = trail s0 \<and> vardata s = vardata s0 \<and> trail_lim s = trail_lim s0 \<and>
      (\<forall>x. clause_at s x = clause_at s0 x) \<and>
      last_decision s0 < n \<and> n \<le> length (trail s0) \<and>
      (if n = length (trail s0) then p = None \<and> confl = Some confl0
       else p = Some (trail s0 ! n) \<and> confl = reason s0 (var (trail s0 ! n))) \<and>
      reaches s0 confl0 None n \<and>
      (\<forall>j. last_decision s0 \<le> j \<and> j < n \<longrightarrow>
         (seen_at s j \<longleftrightarrow>
            (\<exists>k. n < k \<and> k \<le> length (trail s0) \<and> edge s0 confl0 j k \<and> reaches s0 confl0 None k))) \<and>
      (\<forall>j. n \<le> j \<and> j < length (trail s0) \<longrightarrow> \<not> seen_at s j) \<and>
      nb = int (card {j. last_decision s0 \<le> j \<and> j < length (trail s0) \<and> seen_at s j}) \<and>
      (\<forall>v. n \<le> v \<and> v < length (trail s0) \<longrightarrow> \<not> uip s0 confl0 v) \<and>
      out \<noteq> [] \<and>
      (\<forall>q \<in> set (tl out). \<exists>j < last_decision s0. trail s0 ! j = neg q \<and> 0 < level s0 (var q)))"

section \<open>The arena during garbage collection\<close>

text \<open>
  Outside \<^verbatim>\<open>garbageCollect\<close> no clause of the arena bears the relocation mark.
\<close>

definition unmarked :: "ClauseAllocator \<Rightarrow> bool" where
  "unmarked a = (\<forall>cr c. mem a cr = Some c \<longrightarrow> \<not> c_reloced c)"

text \<open>
  The arena \<open>a\<close> and the new arena \<open>to\<close> in the course of the relocation of the arena
  \<open>a0\<close>: a clause of \<open>a0\<close> is either still as it was, or it holds the relocation mark
  and, in its first literal slot, the reference at which \<open>to\<close> holds the clause as it
  was; \<open>to\<close> holds clauses below its size only.
\<close>

definition relocating :: "ClauseAllocator \<Rightarrow> ClauseAllocator \<Rightarrow> ClauseAllocator \<Rightarrow> bool" where
  "relocating a0 a to =
     ((\<forall>cr. case mem a0 cr of
              None \<Rightarrow> mem a cr = None
            | Some c \<Rightarrow> \<not> c_reloced c \<and>
                (mem a cr = Some c \<or>
                 (\<exists>f. c_lits c \<noteq> [] \<and>
                    mem a cr = Some (c\<lparr> c_reloced := True, c_lits := (c_lits c)[0 := f] \<rparr>) \<and>
                    mem to f = Some c))) \<and>
      (\<forall>f. mem to f \<noteq> None \<longrightarrow> f < ca_size to))"

section \<open>The test of reduceDB\<close>

text \<open>
  The condition under which the loop of \<^verbatim>\<open>reduceDB\<close> drops the clause \<open>cr\<close> found at
  index \<open>i\<close> of the sorted list of \<open>n\<close> learnt clauses, read in the state \<open>s\<close> in
  which \<^verbatim>\<open>reduceDB\<close> is called:
  \<^verbatim>\<open>c.size() > 2 && !locked(c) && i < learnts.size() / 2\<close>.
\<close>

definition reduce_drop :: "Solver \<Rightarrow> nat \<Rightarrow> nat \<Rightarrow> cref \<Rightarrow> bool" where
  "reduce_drop s n i cr =
     (case mem (ca s) cr of
        None \<Rightarrow> False
      | Some c \<Rightarrow> length (c_lits c) > 2 \<and> locked s cr c = Inr False \<and> i < n div 2)"

text \<open>The clause at \<open>cr\<close> bears the deletion mark.\<close>

definition marked :: "Solver \<Rightarrow> cref \<Rightarrow> bool" where
  "marked s cr = (case mem (ca s) cr of None \<Rightarrow> False | Some c \<Rightarrow> c_mark c = 1)"

section \<open>States and projections used in the examples\<close>

text \<open>What the driver reads after \<^verbatim>\<open>solve\<close>: the status and the model.\<close>

definition answer :: "(lbool \<times> Solver) res \<Rightarrow> (lbool \<times> lbool list) res" where
  "answer r = (case r of Inl e \<Rightarrow> Inl e | Inr (st, s) \<Rightarrow> Inr (st, model s))"

text \<open>The solver after two calls of \<^verbatim>\<open>newVar()\<close>, as for the input \<^verbatim>\<open>p cnf 2 0\<close>.\<close>

definition two_vars :: Solver where
  "two_vars = snd (newVar True (snd (newVar True Solver_init)))"

text \<open>
  A state at decision level 2: variable 0 was decided false at level 1, variable 1
  true at level 2.
\<close>

text \<open>
  The solver with two variables after \<^verbatim>\<open>addClause\<close> of the empty clause: \<^verbatim>\<open>ok\<close>
  is false.
\<close>

definition two_vars_failed :: Solver where
  "two_vars_failed = two_vars\<lparr> ok := False \<rparr>"

text \<open>
  The solver with two variables after \<^verbatim>\<open>addClause\<close> of the unit clause of
  variable 0: the variable is true at level 0.
\<close>

definition x0_true :: Solver where
  "x0_true = two_vars\<lparr> assigns := [l_True, l_Undef], trail := [0], qhead := 1,
     propagations := 1 \<rparr>"

text \<open>
  Three variables and the clauses \<open>x0 \<or> x1 \<or> x2\<close> and \<open>x0 \<or> x1 \<or> \<not> x2\<close>; then
  the decisions \<open>\<not> x0\<close> and \<open>\<not> x1\<close>, each followed by \<^verbatim>\<open>propagate\<close>. The second
  propagation ends in a conflict.
\<close>

definition three_vars :: Solver where
  "three_vars = snd (newVar True (snd (newVar True (snd (newVar True Solver_init)))))"

definition conflict_run :: "(cref option \<times> Solver) res" where
  "conflict_run =
     thn (addClause' [0, 2, 4] three_vars) (\<lambda>(_, _, s1).
       thn (addClause' [0, 2, 5] s1) (\<lambda>(_, _, s2).
         thn (uncheckedEnqueue 1 None (newDecisionLevel s2)) (\<lambda>s3.
           thn (propagate s3) (\<lambda>(_, s4).
             thn (uncheckedEnqueue 3 None (newDecisionLevel s4)) propagate))))"

text \<open>
  Five variables and the clauses \<open>x0 \<or> x1\<close>, \<open>\<not> x1 \<or> x2 \<or> x4\<close>, \<open>\<not> x1 \<or> x3\<close> and
  \<open>\<not> x2 \<or> \<not> x3\<close>; then the decisions \<open>\<not> x4\<close> and \<open>\<not> x0\<close>, each followed by
  \<^verbatim>\<open>propagate\<close>. The second one implies \<open>x1\<close>, then \<open>x2\<close> and \<open>x3\<close>, and ends in a
  conflict.
\<close>

definition five_vars :: Solver where
  "five_vars = snd (newVar True (snd (newVar True three_vars)))"

definition uip_run :: "(cref option \<times> Solver) res" where
  "uip_run =
     thn (addClause' [0, 2] five_vars) (\<lambda>(_, _, s1).
       thn (addClause' [3, 4, 8] s1) (\<lambda>(_, _, s2).
         thn (addClause' [3, 6] s2) (\<lambda>(_, _, s3).
           thn (addClause' [5, 7] s3) (\<lambda>(_, _, s4).
             thn (uncheckedEnqueue 9 None (newDecisionLevel s4)) (\<lambda>s5.
               thn (propagate s5) (\<lambda>(_, s6).
                 thn (uncheckedEnqueue 1 None (newDecisionLevel s6)) propagate))))))"

text \<open>
  What a conflict looks like to \<^verbatim>\<open>analyze\<close>: whether the state is as \<^verbatim>\<open>search\<close> leaves
  it, whether the node \<open>u\<close> is the first unique implication point, the trail and the
  positions of the decisions.
\<close>

definition uip_check :: "(cref option \<times> Solver) res \<Rightarrow> nat \<Rightarrow> (bool \<times> bool \<times> lit list \<times> nat list) res" where
  "uip_check r u = (case r of Inr (Some cr, s) \<Rightarrow>
       Inr (analyze_pre cr s, first_uip s cr u, trail s, trail_lim s)
     | Inr (None, s) \<Rightarrow> Inl OutOfFuel | Inl e \<Rightarrow> Inl e)"

text \<open>What \<^verbatim>\<open>analyze\<close> hands back to \<^verbatim>\<open>search\<close>.\<close>

definition learnt_of :: "(lit list \<times> nat \<times> nat \<times> Solver) res \<Rightarrow> (lit list \<times> nat \<times> nat) res" where
  "learnt_of r = (case r of Inl e \<Rightarrow> Inl e | Inr (out, bt, lbd, s) \<Rightarrow> Inr (out, bt, lbd))"

text \<open>
  A state with four learnt clauses, at the references 0, 6, 11 and 17, the last one
  being the reason of variable 0; they fill the arena.
\<close>

definition reduce_example :: Solver where
  "reduce_example = three_vars\<lparr>
     ca := \<lparr> mem = (\<lambda>_. None)
               (0 \<mapsto> \<lparr> c_lits = [0, 2, 4], c_learnt = True, c_mark = 0, c_reloced = False,
                       c_activity = 0, c_lbd = 3 \<rparr>,
                6 \<mapsto> \<lparr> c_lits = [1, 3], c_learnt = True, c_mark = 0, c_reloced = False,
                       c_activity = 0, c_lbd = 2 \<rparr>,
                11 \<mapsto> \<lparr> c_lits = [0, 3, 5], c_learnt = True, c_mark = 0, c_reloced = False,
                        c_activity = 0, c_lbd = 2 \<rparr>,
                17 \<mapsto> \<lparr> c_lits = [1, 2, 4], c_learnt = True, c_mark = 0, c_reloced = False,
                        c_activity = 0, c_lbd = 5 \<rparr>),
             ca_size = 23, ca_wasted = 0 \<rparr>,
     learnts := [0, 6, 11, 17],
     assigns := [l_False, l_Undef, l_Undef],
     vardata := [\<lparr> vd_reason = Some 17, vd_level = 0 \<rparr>, \<lparr> vd_reason = None, vd_level = 0 \<rparr>,
                 \<lparr> vd_reason = None, vd_level = 0 \<rparr>],
     trail := [1], qhead := 1 \<rparr>"

text \<open>The learnt clauses after a call: their references and their literals.\<close>

definition kept_of :: "Solver res \<Rightarrow> (cref \<times> lit list option) list res" where
  "kept_of r = (case r of Inl e \<Rightarrow> Inl e
     | Inr s \<Rightarrow> Inr (map (\<lambda>cr. (cr, map_option c_lits (mem (ca s) cr))) (learnts s)))"

text \<open>The solver with three variables and the two clauses of the example above.\<close>

definition two_clauses :: Solver where
  "two_clauses =
     (case thn (addClause' [0, 2, 4] three_vars) (\<lambda>(_, _, s1). addClause' [0, 2, 5] s1) of
        Inr (_, _, s) \<Rightarrow> s
      | Inl _ \<Rightarrow> three_vars)"

text \<open>The status, the number of decisions and the number of conflicts.\<close>

definition effort :: "(lbool \<times> Solver) res \<Rightarrow> (lbool \<times> 64 word \<times> 64 word) res" where
  "effort r = (case r of Inl e \<Rightarrow> Inl e | Inr (st, s) \<Rightarrow> Inr (st, decisions s, conflicts s))"

text \<open>
  The solver with two variables after a hundred conflicts: the first fifty learnt clauses
  had LBD 1, the last fifty, which fill \<^verbatim>\<open>lbdQueue\<close>, LBD 2.
\<close>

definition full_queue :: Solver where
  "full_queue = two_vars\<lparr> conflicts := 100,
     lbdQueue := \<lparr> bq_elems = replicate 50 2, bq_maxsize = 50 \<rparr>, sumLBD := 150 \<rparr>"

definition cancel_example :: Solver where
  "cancel_example = Solver_init\<lparr>
     assigns := [l_False, l_True], polarity := [False, False], activity := [0, 0],
     seen := [False, False], levelTagged := [0, 0], watches := [[], [], [], []],
     vardata := [\<lparr> vd_reason = None, vd_level = 1 \<rparr>, \<lparr> vd_reason = None, vd_level = 2 \<rparr>],
     trail := [1, 2], trail_cap := 2, trail_lim := [0, 1], qhead := 2, order_heap := [] \<rparr>"

section \<open>Properties\<close>

subsection \<open>Sequencing\<close>

lemma thn_Inr_iff: "thn m f = Inr r \<longleftrightarrow> (\<exists>x. m = Inr x \<and> f x = Inr r)"
  by (cases m) (auto simp: thn_def)

lemma thn_Inr [simp]: "thn (Inr x) f = f x"
  by (simp add: thn_def)

lemma thn_Inl [simp]: "thn (Inl e) f = Inl e"
  by (simp add: thn_def)

subsection \<open>Termination of the loops\<close>

lemma heap_best_mem: "heap_best act b xs \<in> set (b # xs)"
  by (induction xs arbitrary: b) auto

lemma heap_removeMin_length:
  "heap_removeMin act h = Inr (x, h') \<Longrightarrow> length h' < length h"
proof -
  assume a: "heap_removeMin act h = Inr (x, h')"
  then obtain y ys where h: "h = y # ys"
    by (cases h) (auto simp: heap_removeMin_def)
  with a have "h' = remove1 (heap_best act y ys) h"
    by (auto simp: heap_removeMin_def split: if_splits)
  moreover have "heap_best act y ys \<in> set h"
    using heap_best_mem [of act y ys] h by simp
  ultimately have "length h' = length h - 1"
    by (simp only: length_remove1 if_True)
  then show ?thesis
    by (simp add: h)
qed

termination pick_loop
  by (relation "measure (\<lambda>s. length (order_heap s))") (auto dest: heap_removeMin_length)

declare pick_loop.simps [simp del]

lemma analyze_scan_less: "analyze_scan s n = Inr i \<Longrightarrow> i < n"
  by (induction n) (auto split: if_splits)

termination analyze_loop
  by (relation "measure (\<lambda>(confl, p, out, nb, n, s). n)") (auto dest: analyze_scan_less)

declare analyze_loop.simps [simp del]

lemma uncheckedEnqueue_Inr:
  "uncheckedEnqueue p from s = Inr s1 \<longleftrightarrow>
     var p < length (assigns s) \<and> var p < length (vardata s) \<and> valueL s p = l_Undef \<and>
     length (trail s) < trail_cap s \<and>
     s1 = s\<lparr> assigns := (assigns s)[var p := lbool_of (\<not> sign p)],
             vardata := (vardata s)[var p := \<lparr> vd_reason = from, vd_level = decisionLevel s \<rparr>],
             trail := trail s @ [p] \<rparr>"
  by (auto simp: uncheckedEnqueue_def)

lemma value_lit_Inr: "value_lit s p = Inr v \<longleftrightarrow> var p < length (assigns s) \<and> v = valueL s p"
  by (auto simp: value_lit_def)

lemma find_watch_Some:
  "find_watch s qs k = Inr (Some j) \<Longrightarrow>
     k \<le> j \<and> j < k + length qs \<and> var (qs ! (j - k)) < length (assigns s) \<and>
     valueL s (qs ! (j - k)) \<noteq> l_False"
proof (induction qs arbitrary: k)
  case Nil
  then show ?case by simp
next
  case (Cons q qs)
  show ?case
  proof (cases "valueL s q \<noteq> l_False")
    case True
    with Cons.prems show ?thesis
      by (auto simp: value_lit_def split: if_splits)
  next
    case False
    with Cons.prems have "find_watch s qs (Suc k) = Inr (Some j)"
      by (auto simp: value_lit_def split: if_splits)
    from Cons.IH [OF this] have ih: "Suc k \<le> j" "j < Suc k + length qs"
      "var (qs ! (j - Suc k)) < length (assigns s)" "valueL s (qs ! (j - Suc k)) \<noteq> l_False"
      by simp_all
    have "j - k = Suc (j - Suc k)"
      using ih(1) by arith
    with ih show ?thesis
      by simp
  qed
qed

lemma find_watch_drop:
  assumes "find_watch s (drop k ls) k = Inr (Some j)"
  shows "k \<le> j \<and> j < length ls \<and> var (ls ! j) < length (assigns s) \<and> valueL s (ls ! j) \<noteq> l_False"
proof -
  from find_watch_Some [OF assms]
  have a: "k \<le> j" "j < k + length (drop k ls)"
    "var (drop k ls ! (j - k)) < length (assigns s)" "valueL s (drop k ls ! (j - k)) \<noteq> l_False"
    by simp_all
  from a(1,2) have b: "j < length ls" "k + (j - k) = j"
    by simp_all
  then have "drop k ls ! (j - k) = ls ! j"
    by simp
  with a b show ?thesis
    by simp
qed

lemma find_watch_None:
  "find_watch s qs k = Inr None \<Longrightarrow> \<forall>q \<in> set qs. var q < length (assigns s) \<and> valueL s q = l_False"
  by (induction qs arbitrary: k) (auto simp: value_lit_def split: if_splits)

lemma propagate_watcher_elim:
  assumes "propagate_watcher p w s = Inr (v, s1)"
  obtains
    (blocker) "var (blocker w) < length (assigns s)" "valueL s (blocker w) = l_True"
      "v = Keep w" "s1 = s"
  | (first) c where "var (blocker w) < length (assigns s)" "valueL s (blocker w) \<noteq> l_True"
      "mem (ca s) (cref w) = Some c" "2 \<le> length (c_lits c)"
      "false_lit_second (neg p) (c_lits c) ! 1 = neg p"
      "var (false_lit_second (neg p) (c_lits c) ! 0) < length (assigns s)"
      "valueL s (false_lit_second (neg p) (c_lits c) ! 0) = l_True"
      "false_lit_second (neg p) (c_lits c) ! 0 \<noteq> blocker w"
      "v = Keep (Watcher (cref w) (false_lit_second (neg p) (c_lits c) ! 0))"
      "s1 = s\<lparr> ca := ca_set (cref w) (c\<lparr> c_lits := false_lit_second (neg p) (c_lits c) \<rparr>) (ca s) \<rparr>"
  | (moved) c k where "var (blocker w) < length (assigns s)" "valueL s (blocker w) \<noteq> l_True"
      "mem (ca s) (cref w) = Some c" "2 \<le> length (c_lits c)"
      "false_lit_second (neg p) (c_lits c) ! 1 = neg p"
      "var (false_lit_second (neg p) (c_lits c) ! 0) < length (assigns s)"
      "2 \<le> k" "k < length (c_lits c)"
      "var (false_lit_second (neg p) (c_lits c) ! k) < length (assigns s)"
      "valueL s (false_lit_second (neg p) (c_lits c) ! k) \<noteq> l_False"
      "neg (false_lit_second (neg p) (c_lits c) ! k) \<noteq> p"
      "neg (false_lit_second (neg p) (c_lits c) ! k) < length (watches s)"
      "v = Moved"
      "s1 = s\<lparr> ca := ca_set (cref w)
                 (c\<lparr> c_lits := (false_lit_second (neg p) (c_lits c))
                      [1 := false_lit_second (neg p) (c_lits c) ! k, k := neg p] \<rparr>) (ca s),
               watches := (watches s)[neg (false_lit_second (neg p) (c_lits c) ! k) :=
                   watches s ! neg (false_lit_second (neg p) (c_lits c) ! k)
                     @ [Watcher (cref w) (false_lit_second (neg p) (c_lits c) ! 0)]] \<rparr>"
  | (conflict) c where "var (blocker w) < length (assigns s)" "valueL s (blocker w) \<noteq> l_True"
      "mem (ca s) (cref w) = Some c" "2 \<le> length (c_lits c)"
      "false_lit_second (neg p) (c_lits c) ! 1 = neg p"
      "var (false_lit_second (neg p) (c_lits c) ! 0) < length (assigns s)"
      "valueL s (false_lit_second (neg p) (c_lits c) ! 0) = l_False"
      "\<forall>q \<in> set (drop 2 (false_lit_second (neg p) (c_lits c))).
          var q < length (assigns s) \<and> valueL s q = l_False"
      "v = Conflict (Watcher (cref w) (false_lit_second (neg p) (c_lits c) ! 0))"
      "s1 = s\<lparr> ca := ca_set (cref w) (c\<lparr> c_lits := false_lit_second (neg p) (c_lits c) \<rparr>) (ca s),
               qhead := length (trail s) \<rparr>"
  | (unit) c where "var (blocker w) < length (assigns s)" "valueL s (blocker w) \<noteq> l_True"
      "mem (ca s) (cref w) = Some c" "2 \<le> length (c_lits c)"
      "false_lit_second (neg p) (c_lits c) ! 1 = neg p"
      "var (false_lit_second (neg p) (c_lits c) ! 0) < length (assigns s)"
      "var (false_lit_second (neg p) (c_lits c) ! 0) < length (vardata s)"
      "valueL s (false_lit_second (neg p) (c_lits c) ! 0) = l_Undef"
      "length (trail s) < trail_cap s"
      "\<forall>q \<in> set (drop 2 (false_lit_second (neg p) (c_lits c))).
          var q < length (assigns s) \<and> valueL s q = l_False"
      "v = Keep (Watcher (cref w) (false_lit_second (neg p) (c_lits c) ! 0))"
      "s1 = s\<lparr> ca := ca_set (cref w) (c\<lparr> c_lits := false_lit_second (neg p) (c_lits c) \<rparr>) (ca s),
               assigns := (assigns s)[var (false_lit_second (neg p) (c_lits c) ! 0) :=
                   lbool_of (\<not> sign (false_lit_second (neg p) (c_lits c) ! 0))],
               vardata := (vardata s)[var (false_lit_second (neg p) (c_lits c) ! 0) :=
                   \<lparr> vd_reason = Some (cref w), vd_level = decisionLevel s \<rparr>],
               trail := trail s @ [false_lit_second (neg p) (c_lits c) ! 0] \<rparr>"
proof -
  from assms have vb: "var (blocker w) < length (assigns s)"
    by (auto simp: propagate_watcher_def thn_Inr_iff value_lit_Inr)
  show ?thesis
  proof (cases "valueL s (blocker w) = l_True")
    case True
    with assms vb show ?thesis
      by (intro blocker) (auto simp: propagate_watcher_def value_lit_def)
  next
    case nb: False
    with assms vb obtain c where c: "mem (ca s) (cref w) = Some c"
      by (auto simp: propagate_watcher_def value_lit_def split: option.splits)
    define ls where "ls = false_lit_second (neg p) (c_lits c)"
    define first where "first = ls ! 0"
    define w1 where "w1 = Watcher (cref w) first"
    define s0 where "s0 = s\<lparr> ca := ca_set (cref w) (c\<lparr> c_lits := ls \<rparr>) (ca s) \<rparr>"
    from assms vb nb c have len: "2 \<le> length (c_lits c)" and l1: "ls ! 1 = neg p"
      by (auto simp: propagate_watcher_def value_lit_def Let_def ls_def split: if_splits)
    have lenls: "length ls = length (c_lits c)"
      by (simp add: ls_def false_lit_second_def)
    have vf: "var first < length (assigns s)"
      using assms vb nb c len l1
      by (auto simp: propagate_watcher_def value_lit_def Let_def ls_def first_def thn_Inr_iff
          split: if_splits)
    show ?thesis
    proof (cases "first \<noteq> blocker w \<and> valueL s first = l_True")
      case True
      with assms vb nb c len l1 vf have "v = Keep w1 \<and> s1 = s0"
        by (auto simp: propagate_watcher_def value_lit_def Let_def ls_def first_def w1_def s0_def)
      with True vb nb c len l1 vf show ?thesis
        by (intro first [of c]) (auto simp: ls_def first_def w1_def s0_def)
    next
      case nf: False
      show ?thesis
      proof (cases "find_watch s (drop 2 ls) 2")
        case (Inl e)
        with assms vb nb c len l1 vf nf have False
          by (auto simp: propagate_watcher_def value_lit_def Let_def ls_def first_def)
        then show ?thesis ..
      next
        case (Inr ko)
        show ?thesis
        proof (cases ko)
          case (Some k)
          from find_watch_drop [OF Inr [unfolded Some]]
          have k: "2 \<le> k" "k < length ls" "var (ls ! k) < length (assigns s)"
            "valueL s (ls ! k) \<noteq> l_False"
            by simp_all
          then have k1: "ls[1 := ls ! k, k := neg p] ! 1 = ls ! k"
            by simp
          from assms vb nb c len l1 vf nf Inr Some k1
          have "neg (ls ! k) \<noteq> p \<and> neg (ls ! k) < length (watches s) \<and> v = Moved \<and>
            s1 = s\<lparr> ca := ca_set (cref w) (c\<lparr> c_lits := ls[1 := ls ! k, k := neg p] \<rparr>) (ca s),
                        watches := (watches s)[neg (ls ! k) :=
                                      watches s ! neg (ls ! k) @ [w1]] \<rparr>"
            by (auto simp: propagate_watcher_def value_lit_def Let_def ls_def first_def w1_def
                split: if_splits)
          with k vb nb c len l1 vf show ?thesis
            by (intro moved [of c k]) (auto simp: ls_def first_def w1_def lenls [unfolded ls_def])
        next
          case None
          from find_watch_None [OF Inr [unfolded None]]
          have allf: "\<forall>q \<in> set (drop 2 ls). var q < length (assigns s) \<and> valueL s q = l_False" .
          show ?thesis
          proof (cases "valueL s first = l_False")
            case True
            with assms vb nb c len l1 vf nf Inr None
            have "v = Conflict w1 \<and> s1 = s0\<lparr> qhead := length (trail s0) \<rparr>"
              by (auto simp: propagate_watcher_def value_lit_def Let_def ls_def first_def w1_def
                  s0_def)
            with True allf vb nb c len l1 vf show ?thesis
              by (intro conflict [of c]) (auto simp: ls_def first_def w1_def s0_def)
          next
            case False
            with assms vb nb c len l1 vf nf Inr None
            have "\<exists>s2. uncheckedEnqueue first (Some (cref w)) s0 = Inr s2 \<and> v = Keep w1 \<and> s1 = s2"
              by (auto simp: propagate_watcher_def value_lit_def Let_def ls_def first_def w1_def
                  s0_def thn_Inr_iff)
            with allf vb nb c len l1 vf show ?thesis
              by (intro unit [of c])
                (auto simp: uncheckedEnqueue_Inr ls_def first_def w1_def s0_def valueL_def
                  decisionLevel_def)
          qed
        qed
      qed
    qed
  qed
qed


lemma propagate_watcher_trail:
  assumes "propagate_watcher p w s = Inr (v, s1)"
  shows "trail_cap s1 = trail_cap s \<and> length (trail s) \<le> length (trail s1) \<and>
         length (trail s1) \<le> max (trail_cap s) (length (trail s)) \<and>
         (case v of Conflict _ \<Rightarrow> qhead s1 = length (trail s1) | _ \<Rightarrow> qhead s1 = qhead s)"
  using assms by (elim propagate_watcher_elim) auto

lemma propagate_ws_trail:
  "propagate_ws p ws kept s = Inr (c, ws1, s1) \<Longrightarrow>
     trail_cap s1 = trail_cap s \<and> length (trail s) \<le> length (trail s1) \<and>
     length (trail s1) \<le> max (trail_cap s) (length (trail s)) \<and>
     (case c of Some _ \<Rightarrow> qhead s1 = length (trail s1) | None \<Rightarrow> qhead s1 = qhead s)"
proof (induction ws arbitrary: kept s)
  case Nil
  then show ?case by simp
next
  case (Cons w ws)
  from Cons.prems obtain v s0 where pw: "propagate_watcher p w s = Inr (v, s0)"
    by (cases "propagate_watcher p w s") (auto split: prod.splits)
  note t = propagate_watcher_trail [OF pw]
  show ?case
  proof (cases v)
    case (Keep w1)
    with Cons.prems pw have "propagate_ws p ws (kept @ [w1]) s0 = Inr (c, ws1, s1)"
      by simp
    from Cons.IH [OF this] t Keep show ?thesis
      by (auto split: option.splits)
  next
    case Moved
    with Cons.prems pw have "propagate_ws p ws kept s0 = Inr (c, ws1, s1)"
      by simp
    from Cons.IH [OF this] t Moved show ?thesis
      by (auto split: option.splits)
  next
    case (Conflict w1)
    with Cons.prems pw have "c = Some (cref w1)" "s1 = s0"
      by simp_all
    with t Conflict show ?thesis
      by simp
  qed
qed

termination propagate_loop
proof (relation "measure (\<lambda>(confl, s). max (trail_cap s) (length (trail s)) - qhead s)", goal_cases)
  case 1
  then show ?case by simp
next
  case (2 confl s p s1 x2 c y ws s2)
  then have "propagate_ws (trail s ! qhead s) (watches s ! (trail s ! qhead s)) []
      (s\<lparr> qhead := qhead s + 1, propagations := propagations s + 1 \<rparr>) = Inr (c, ws, s2)"
    by simp
  from propagate_ws_trail [OF this] 2(1) show ?case
    by (auto split: option.splits)
qed

declare propagate_loop.simps [simp del]

subsection \<open>cancelUntil\<close>

lemma insertVarOrder_frame:
  "insertVarOrder x s = s\<lparr> order_heap := order_heap (insertVarOrder x s) \<rparr>"
  by (simp add: insertVarOrder_def)

lemma insertVarOrder_heap:
  "set (order_heap (insertVarOrder x s)) = insert x (set (order_heap s))"
  "distinct (order_heap s) \<Longrightarrow> distinct (order_heap (insertVarOrder x s))"
  by (auto simp: insertVarOrder_def inHeap_def heap_insert_def)

lemma cancel_loop_frame:
  "cancel_loop qs s = Inr s' \<Longrightarrow>
     s' = s\<lparr> assigns := assigns s', polarity := polarity s', order_heap := order_heap s' \<rparr>"
proof (induction qs arbitrary: s)
  case Nil
  then show ?case by simp
next
  case (Cons q qs)
  let ?s1 = "insertVarOrder (var q)
               (s\<lparr> assigns := (assigns s)[var q := l_Undef],
                   polarity := (polarity s)[var q := sign q] \<rparr>)"
  from Cons.prems have r: "cancel_loop qs ?s1 = Inr s'"
    by (simp split: if_splits)
  have "s' = ?s1\<lparr> assigns := assigns s', polarity := polarity s', order_heap := order_heap s' \<rparr>"
    by (rule Cons.IH [OF r])
  then show ?case
    by (simp add: insertVarOrder_def split: if_splits)
qed

lemma cancel_loop_effect:
  assumes "\<forall>q \<in> set qs. var q < length (assigns s) \<and> var q < length (polarity s)"
  shows "\<exists>s'. cancel_loop qs s = Inr s'
           \<and> length (assigns s') = length (assigns s)
           \<and> length (polarity s') = length (polarity s)
           \<and> (\<forall>x. assigns s' ! x = (if x \<in> var ` set qs then l_Undef else assigns s ! x))
           \<and> (\<forall>x. x \<notin> var ` set qs \<longrightarrow> polarity s' ! x = polarity s ! x)
           \<and> (distinct (map var qs) \<longrightarrow> (\<forall>q \<in> set qs. polarity s' ! var q = sign q))
           \<and> set (order_heap s') = set (order_heap s) \<union> var ` set qs
           \<and> (distinct (order_heap s) \<longrightarrow> distinct (order_heap s'))"
  using assms
proof (induction qs arbitrary: s)
  case Nil
  then show ?case by simp
next
  case (Cons q qs)
  let ?s0 = "s\<lparr> assigns := (assigns s)[var q := l_Undef],
                   polarity := (polarity s)[var q := sign q] \<rparr>"
  let ?s1 = "insertVarOrder (var q) ?s0"
  have a1: "assigns ?s1 = (assigns s)[var q := l_Undef]"
    and p1: "polarity ?s1 = (polarity s)[var q := sign q]"
    by (simp_all add: insertVarOrder_def)
  have h1: "set (order_heap ?s1) = insert (var q) (set (order_heap s))"
    by (simp add: insertVarOrder_heap)
  have d1: "distinct (order_heap s) \<Longrightarrow> distinct (order_heap ?s1)"
    by (rule insertVarOrder_heap) simp
  have pre: "\<forall>q \<in> set qs. var q < length (assigns ?s1) \<and> var q < length (polarity ?s1)"
    using Cons.prems by (simp add: a1 p1)
  from Cons.IH [OF pre] obtain s' where
    r: "cancel_loop qs ?s1 = Inr s'"
    and la: "length (assigns s') = length (assigns ?s1)"
    and lp: "length (polarity s') = length (polarity ?s1)"
    and as: "\<forall>x. assigns s' ! x = (if x \<in> var ` set qs then l_Undef else assigns ?s1 ! x)"
    and po: "\<forall>x. x \<notin> var ` set qs \<longrightarrow> polarity s' ! x = polarity ?s1 ! x"
    and ps: "distinct (map var qs) \<longrightarrow> (\<forall>q \<in> set qs. polarity s' ! var q = sign q)"
    and hs: "set (order_heap s') = set (order_heap ?s1) \<union> var ` set qs"
    and ds: "distinct (order_heap ?s1) \<longrightarrow> distinct (order_heap s')"
    by blast
  have vq: "var q < length (assigns s)" "var q < length (polarity s)"
    using Cons.prems by simp_all
  have c: "cancel_loop (q # qs) s = Inr s'"
    using r vq by simp
  have "\<forall>x. assigns s' ! x = (if x \<in> var ` set (q # qs) then l_Undef else assigns s ! x)"
    using as vq by (auto simp: a1 nth_list_update)
  moreover have "\<forall>x. x \<notin> var ` set (q # qs) \<longrightarrow> polarity s' ! x = polarity s ! x"
    using po by (auto simp: p1)
  moreover have "distinct (map var (q # qs)) \<longrightarrow> (\<forall>q' \<in> set (q # qs). polarity s' ! var q' = sign q')"
    using ps po vq by (auto simp: p1)
  moreover have "set (order_heap s') = set (order_heap s) \<union> var ` set (q # qs)"
    using hs h1 by auto
  moreover have "distinct (order_heap s) \<longrightarrow> distinct (order_heap s')"
    using ds d1 by blast
  ultimately show ?case
    using c la lp by (simp add: a1 p1)
qed


text \<open>
  Claim C7, as stated, for every level: \<^verbatim>\<open>cancelUntil(1)\<close> on the fresh solver, at
  decision level 0, leaves the decision level at 0. The guard
  \<^verbatim>\<open>if(decisionLevel() > level)\<close> makes the call do nothing.
\<close>

theorem cancelUntil_every_level_counterexample:
  "cancelUntil 1 Solver_init = Inr Solver_init \<and> decisionLevel Solver_init \<noteq> 1"
  by (simp add: cancelUntil_def decisionLevel_def Solver_init_def)

text \<open>
  Claim C7, amended. A call \<^verbatim>\<open>cancelUntil(lv)\<close> with \<open>lv\<close> not below the decision
  level changes nothing. With \<open>lv\<close> below the decision level, and the variables of the
  trail entries from index \<^verbatim>\<open>trail_lim[lv]\<close> on inside \<^verbatim>\<open>assigns\<close> and
  \<^verbatim>\<open>polarity\<close> and pairwise different, the call returns; afterwards the decision
  level is \<open>lv\<close>, \<^verbatim>\<open>qhead\<close> is \<^verbatim>\<open>trail_lim[lv]\<close>, \<^verbatim>\<open>trail\<close> and
  \<^verbatim>\<open>trail_lim\<close> are cut there, every such entry has its variable unassigned, its sign
  saved in \<^verbatim>\<open>polarity\<close> and its variable in the order heap (inserted only when absent),
  and nothing else has changed.
\<close>

theorem cancelUntil_backjump:
  "(decisionLevel s \<le> lv \<longrightarrow> cancelUntil lv s = Inr s) \<and>
   (lv < decisionLevel s \<and>
    (\<forall>q \<in> set (drop (trail_lim s ! lv) (trail s)).
        var q < length (assigns s) \<and> var q < length (polarity s)) \<and>
    distinct (map var (drop (trail_lim s ! lv) (trail s))) \<longrightarrow>
    (\<exists>s'. cancelUntil lv s = Inr s' \<and>
       decisionLevel s' = lv \<and>
       qhead s' = trail_lim s ! lv \<and>
       trail s' = take (trail_lim s ! lv) (trail s) \<and>
       trail_lim s' = take lv (trail_lim s) \<and>
       (\<forall>i. trail_lim s ! lv \<le> i \<and> i < length (trail s) \<longrightarrow>
          assigns s' ! var (trail s ! i) = l_Undef \<and>
          polarity s' ! var (trail s ! i) = sign (trail s ! i) \<and>
          inHeap (order_heap s') (var (trail s ! i))) \<and>
       (\<forall>x. x \<notin> var ` set (drop (trail_lim s ! lv) (trail s)) \<longrightarrow>
          assigns s' ! x = assigns s ! x \<and> polarity s' ! x = polarity s ! x \<and>
          inHeap (order_heap s') x = inHeap (order_heap s) x) \<and>
       (distinct (order_heap s) \<longrightarrow> distinct (order_heap s')) \<and>
       s' = s\<lparr> assigns := assigns s', polarity := polarity s', order_heap := order_heap s',
                qhead := qhead s', trail := trail s', trail_lim := trail_lim s' \<rparr>))"
proof (intro conjI impI)
  assume "decisionLevel s \<le> lv"
  then show "cancelUntil lv s = Inr s"
    by (simp add: cancelUntil_def)
next
  let ?k = "trail_lim s ! lv"
  let ?qs = "rev (drop ?k (trail s))"
  assume a: "lv < decisionLevel s \<and>
    (\<forall>q \<in> set (drop ?k (trail s)). var q < length (assigns s) \<and> var q < length (polarity s)) \<and>
    distinct (map var (drop ?k (trail s)))"
  then have lv: "lv < decisionLevel s"
    and rng: "\<forall>q \<in> set ?qs. var q < length (assigns s) \<and> var q < length (polarity s)"
    and dist: "distinct (map var ?qs)"
    by (simp_all add: rev_map [symmetric])
  from cancel_loop_effect [OF rng] obtain s1 where
    r: "cancel_loop ?qs s = Inr s1"
    and as: "\<forall>x. assigns s1 ! x = (if x \<in> var ` set ?qs then l_Undef else assigns s ! x)"
    and po: "\<forall>x. x \<notin> var ` set ?qs \<longrightarrow> polarity s1 ! x = polarity s ! x"
    and ps: "distinct (map var ?qs) \<longrightarrow> (\<forall>q \<in> set ?qs. polarity s1 ! var q = sign q)"
    and hs: "set (order_heap s1) = set (order_heap s) \<union> var ` set ?qs"
    and ds: "distinct (order_heap s) \<longrightarrow> distinct (order_heap s1)"
    by blast
  have fr: "s1 = s\<lparr> assigns := assigns s1, polarity := polarity s1, order_heap := order_heap s1 \<rparr>"
    by (rule cancel_loop_frame [OF r])
  define s' where "s' = s1\<lparr> qhead := ?k, trail := take ?k (trail s), trail_lim := take lv (trail_lim s) \<rparr>"
  have c: "cancelUntil lv s = Inr s'"
    using lv r by (simp add: cancelUntil_def s'_def)
  have mem: "trail s ! i \<in> set (drop ?k (trail s))" if "?k \<le> i" "i < length (trail s)" for i
  proof -
    have "drop ?k (trail s) ! (i - ?k) = trail s ! i"
      using that by simp
    moreover have "i - ?k < length (drop ?k (trail s))"
      using that by simp
    ultimately show ?thesis
      by (metis nth_mem)
  qed
  have e1: "\<forall>i. ?k \<le> i \<and> i < length (trail s) \<longrightarrow>
          assigns s' ! var (trail s ! i) = l_Undef \<and>
          polarity s' ! var (trail s ! i) = sign (trail s ! i) \<and>
          inHeap (order_heap s') (var (trail s ! i))"
  proof (intro allI impI)
    fix i assume i: "?k \<le> i \<and> i < length (trail s)"
    then have m: "trail s ! i \<in> set ?qs"
      using mem by simp
    then have "assigns s1 ! var (trail s ! i) = l_Undef"
      using as by auto
    moreover have "polarity s1 ! var (trail s ! i) = sign (trail s ! i)"
      using ps dist m by blast
    moreover have "var (trail s ! i) \<in> set (order_heap s1)"
      using hs m by blast
    ultimately show "assigns s' ! var (trail s ! i) = l_Undef \<and>
          polarity s' ! var (trail s ! i) = sign (trail s ! i) \<and>
          inHeap (order_heap s') (var (trail s ! i))"
      by (simp add: s'_def inHeap_def)
  qed
  have e2: "\<forall>x. x \<notin> var ` set (drop ?k (trail s)) \<longrightarrow>
          assigns s' ! x = assigns s ! x \<and> polarity s' ! x = polarity s ! x \<and>
          inHeap (order_heap s') x = inHeap (order_heap s) x"
    using as po hs by (auto simp: s'_def inHeap_def)
  have e3: "distinct (order_heap s) \<longrightarrow> distinct (order_heap s')"
    using ds by (simp add: s'_def)
  have e4: "s' = s\<lparr> assigns := assigns s', polarity := polarity s', order_heap := order_heap s',
                qhead := qhead s', trail := trail s', trail_lim := trail_lim s' \<rparr>"
  proof -
    have "s1\<lparr> qhead := ?k, trail := take ?k (trail s), trail_lim := take lv (trail_lim s) \<rparr>
        = (s\<lparr> assigns := assigns s1, polarity := polarity s1, order_heap := order_heap s1 \<rparr>)
            \<lparr> qhead := ?k, trail := take ?k (trail s), trail_lim := take lv (trail_lim s) \<rparr>"
      using fr by (rule arg_cong)
    then show ?thesis
      by (simp add: s'_def)
  qed
  have e5: "decisionLevel s' = lv"
    using lv by (simp add: s'_def decisionLevel_def)
  show "\<exists>s'. cancelUntil lv s = Inr s' \<and>
       decisionLevel s' = lv \<and>
       qhead s' = ?k \<and>
       trail s' = take ?k (trail s) \<and>
       trail_lim s' = take lv (trail_lim s) \<and>
       (\<forall>i. ?k \<le> i \<and> i < length (trail s) \<longrightarrow>
          assigns s' ! var (trail s ! i) = l_Undef \<and>
          polarity s' ! var (trail s ! i) = sign (trail s ! i) \<and>
          inHeap (order_heap s') (var (trail s ! i))) \<and>
       (\<forall>x. x \<notin> var ` set (drop ?k (trail s)) \<longrightarrow>
          assigns s' ! x = assigns s ! x \<and> polarity s' ! x = polarity s ! x \<and>
          inHeap (order_heap s') x = inHeap (order_heap s) x) \<and>
       (distinct (order_heap s) \<longrightarrow> distinct (order_heap s')) \<and>
       s' = s\<lparr> assigns := assigns s', polarity := polarity s', order_heap := order_heap s',
                qhead := qhead s', trail := trail s', trail_lim := trail_lim s' \<rparr>"
    apply (rule exI [of _ s'])
    apply (intro conjI)
            apply (rule c)
           apply (rule e5)
          apply (simp add: s'_def)
         apply (simp add: s'_def)
        apply (simp add: s'_def)
       apply (rule e1)
      apply (rule e2)
     apply (rule e3)
    apply (rule e4)
    done
qed

text \<open>The amended claim C7 at a state of decision level 2, for level 1.\<close>

theorem cancelUntil_backjump_witness:
  "\<exists>s'. cancelUntil 1 cancel_example = Inr s' \<and> decisionLevel s' = 1 \<and> qhead s' = 1 \<and>
        trail s' = [1] \<and> trail_lim s' = [0] \<and> assigns s' = [l_False, l_Undef] \<and>
        polarity s' = [False, False] \<and> order_heap s' = [1]"
proof -
  have h: "1 < decisionLevel cancel_example \<and>
    (\<forall>q \<in> set (drop (trail_lim cancel_example ! 1) (trail cancel_example)).
        var q < length (assigns cancel_example) \<and> var q < length (polarity cancel_example)) \<and>
    distinct (map var (drop (trail_lim cancel_example ! 1) (trail cancel_example)))"
    by (simp add: cancel_example_def Solver_init_def decisionLevel_def var_def)
  from cancelUntil_backjump [of cancel_example 1] h
  obtain s' where "cancelUntil 1 cancel_example = Inr s'" "decisionLevel s' = 1"
    by blast
  moreover have "cancelUntil 1 cancel_example = Inr (cancel_example\<lparr> assigns := [l_False, l_Undef],
      order_heap := [1], qhead := 1, trail := [1], trail_lim := [0] \<rparr>)"
    by (simp add: cancelUntil_def cancel_example_def Solver_init_def decisionLevel_def var_def
        sign_def insertVarOrder_def inHeap_def heap_insert_def)
  ultimately show ?thesis
    by (auto simp: cancel_example_def)
qed


subsection \<open>More turns give the same result\<close>

lemma search_loop_mono:
  "search_loop n s = Inr r \<Longrightarrow> n \<le> m \<Longrightarrow> search_loop m s = Inr r"
proof (induction n arbitrary: m s)
  case 0
  then show ?case by simp
next
  case (Suc n)
  then obtain m' where m: "m = Suc m'" "n \<le> m'"
    by (cases m) auto
  show ?case
  proof (cases "propagate s")
    case (Inl e)
    with Suc.prems show ?thesis by simp
  next
    case (Inr a)
    obtain confl s1 where a: "a = (confl, s1)" by (cases a)
    show ?thesis
    proof (cases confl)
      case None
      show ?thesis
      proof (cases "search_no_conflict s1")
        case (Inl e)
        with Suc.prems Inr a None show ?thesis by simp
      next
        case r2: (Inr b)
        obtain st s2 where b: "b = (st, s2)" by (cases b)
        show ?thesis
        proof (cases st)
          case N: None
          with Suc.prems Inr a None r2 b have "search_loop n s2 = Inr r"
            by simp
          from Suc.IH [OF this m(2)] Inr a None r2 b N m(1) show ?thesis
            by simp
        next
          case (Some status)
          with Suc.prems Inr a None r2 b m(1) show ?thesis
            by simp
        qed
      qed
    next
      case (Some cr)
      show ?thesis
      proof (cases "decisionLevel s1 = 0")
        case True
        with Suc.prems Inr a Some m(1) show ?thesis by simp
      next
        case False
        show ?thesis
        proof (cases "search_conflict cr (s1\<lparr> conflicts := conflicts s1 + 1 \<rparr>)")
          case (Inl e)
          with Suc.prems Inr a Some False show ?thesis by simp
        next
          case r2: (Inr s2)
          with Suc.prems Inr a Some False have "search_loop n s2 = Inr r"
            by simp
          from Suc.IH [OF this m(2)] Inr a Some False r2 m(1) show ?thesis
            by simp
        qed
      qed
    qed
  qed
qed

lemma search_mono: "search n nof s = Inr r \<Longrightarrow> n \<le> m \<Longrightarrow> search m nof s = Inr r"
  by (auto simp: search_def dest: search_loop_mono split: if_splits)

lemma solve_loop_mono:
  "solve_loop k fuel c s = Inr r \<Longrightarrow> k \<le> k' \<Longrightarrow> fuel \<le> fuel' \<Longrightarrow>
     solve_loop k' fuel' c s = Inr r"
proof (induction k arbitrary: k' c s)
  case 0
  then show ?case by simp
next
  case (Suc k)
  then obtain k0 where k: "k' = Suc k0" "k \<le> k0"
    by (cases k') auto
  show ?case
  proof (cases "if luby_restart s then luby 2 c else Inr ((15 / 10) ^ c)")
    case (Inl e)
    with Suc.prems show ?thesis by simp
  next
    case (Inr rest_base)
    show ?thesis
    proof (cases "search fuel \<lfloor>rest_base * 32\<rfloor> (s\<lparr> starts := starts s + 1 \<rparr>)")
      case (Inl e)
      with Suc.prems Inr show ?thesis by simp
    next
      case r2: (Inr a)
      obtain status s1 where a: "a = (status, s1)" by (cases a)
      have r3: "search fuel' \<lfloor>rest_base * 32\<rfloor> (s\<lparr> starts := starts s + 1 \<rparr>) = Inr (status, s1)"
        using search_mono [OF r2 [unfolded a] Suc.prems(3)] .
      show ?thesis
      proof (cases "withinBudget s1 \<and> status = l_Undef")
        case True
        with Suc.prems Inr r2 a have "solve_loop k fuel (c + 1) s1 = Inr r"
          by simp
        from Suc.IH [OF this k(2) Suc.prems(3)] True Inr r3 k(1) show ?thesis
          by simp
      next
        case False
        with Suc.prems Inr r2 a r3 k(1) show ?thesis
          by auto
      qed
    qed
  qed
qed

lemma solve'_mono: "solve' n s = Inr r \<Longrightarrow> n \<le> m \<Longrightarrow> solve' m s = Inr r"
  unfolding solve'_def
  by (auto simp: thn_Inr_iff split: if_splits dest: solve_loop_mono)

lemma solve_mono: "solve n s = Inr r \<Longrightarrow> n \<le> m \<Longrightarrow> solve m s = Inr r"
  unfolding solve_def by (rule solve'_mono)

lemma answer_Inr:
  "answer r = Inr (st, m) \<longleftrightarrow> (\<exists>s. r = Inr (st, s) \<and> model s = m)"
  by (cases r) (auto simp: answer_def)

subsection \<open>Two variables and no clause\<close>

lemma two_vars_solve: "answer (solve 3 two_vars) = Inr (l_True, [l_False, l_False])"
  by code_simp

text \<open>
  Claim C3, as stated: on two variables created by \<^verbatim>\<open>newVar()\<close> and no clause,
  \<^verbatim>\<open>solve\<close> does not return the model \<open>[True, True]\<close>.
\<close>

theorem two_vars_model_counterexample:
  "answer (solve 3 two_vars) \<noteq> Inr (l_True, [l_True, l_True])"
  by (simp add: two_vars_solve)

text \<open>
  Claim C3, amended: with at least three turns allowed, \<^verbatim>\<open>solve\<close> returns True
  with the model \<open>[False, False]\<close>. The default of \<^verbatim>\<open>newVar\<close> stores \<open>true\<close> in
  \<^verbatim>\<open>polarity\<close>; \<^verbatim>\<open>pickBranchLit\<close> takes it as the sign of the decision literal,
  which is then the negated variable.
\<close>

theorem two_vars_model:
  "3 \<le> fuel \<Longrightarrow> answer (solve fuel two_vars) = Inr (l_True, [l_False, l_False])"
proof -
  assume f: "3 \<le> fuel"
  from two_vars_solve obtain s where s: "solve 3 two_vars = Inr (l_True, s)" "model s = [l_False, l_False]"
    by (auto simp: answer_Inr)
  from solve_mono [OF s(1) f] s(2) show ?thesis
    by (simp add: answer_def)
qed

text \<open>The amended claim C3 with four turns.\<close>

theorem two_vars_model_witness:
  "(3::nat) \<le> 4 \<and> answer (solve 4 two_vars) = Inr (l_True, [l_False, l_False])"
  using two_vars_model [of 4] by simp


subsection \<open>addClause_\<close>

lemma add_scan_length: "length (fst (add_scan s p qs)) \<le> length qs"
  by (induction qs arbitrary: p) (auto simp: le_SucI)

lemma add_loop_scan:
  assumes "j \<le> i" "\<forall>q \<in> set (drop i cur). var q < length (assigns s)"
  shows "add_loop s cur i j p =
           Inr (take j cur @ fst (add_scan s p (drop i cur))
                  @ drop (j + length (fst (add_scan s p (drop i cur)))) cur,
                if snd (add_scan s p (drop i cur)) then None
                else Some (j + length (fst (add_scan s p (drop i cur)))))"
  using assms
proof (induction s cur i j p rule: add_loop.induct)
  case (1 s ps i j p)
  show ?case
  proof (cases "i < length ps")
    case False
    then show ?thesis
      by (subst add_loop.simps) simp
  next
    case True
    then have d: "drop i ps = ps ! i # drop (Suc i) ps"
      by (simp add: Cons_nth_drop_Suc)
    have vq: "var (ps ! i) < length (assigns s)"
      using "1.prems"(2) d by simp
    have vr: "\<forall>q \<in> set (drop (Suc i) ps). var q < length (assigns s)"
      using "1.prems"(2) d by simp
    have vl: "value_lit s (ps ! i) = Inr (valueL s (ps ! i))"
      using vq by (simp add: value_lit_def)
    show ?thesis
    proof (cases "valueL s (ps ! i) = l_True \<or> Some (ps ! i) = map_option neg p")
      case e: True
      then show ?thesis
        using True vl by (subst add_loop.simps) (auto simp: d)
    next
      case ne: False
      show ?thesis
      proof (cases "valueL s (ps ! i) \<noteq> l_False \<and> Some (ps ! i) \<noteq> p")
        case k: True
        let ?ps1 = "ps[j := ps ! i]"
        let ?K = "fst (add_scan s (Some (ps ! i)) (drop (Suc i) ps))"
        have ji: "j \<le> i" by (rule "1.prems"(1))
        have d1: "drop (Suc i) ?ps1 = drop (Suc i) ps"
          using ji by simp
        have lK: "length ?K \<le> length ps - Suc i"
          using add_scan_length [of s "Some (ps ! i)" "drop (Suc i) ps"] by simp
        have ih: "add_loop s ?ps1 (i + 1) (j + 1) (Some (ps ! i)) =
           Inr (take (j + 1) ?ps1 @ fst (add_scan s (Some (ps ! i)) (drop (i + 1) ?ps1))
                  @ drop (j + 1 + length (fst (add_scan s (Some (ps ! i)) (drop (i + 1) ?ps1)))) ?ps1,
                if snd (add_scan s (Some (ps ! i)) (drop (i + 1) ?ps1)) then None
                else Some (j + 1 + length (fst (add_scan s (Some (ps ! i)) (drop (i + 1) ?ps1)))))"
          using "1.IH"(1) [OF True vl _ k] ne ji vr d1 by simp
        have t1: "take (Suc j) ?ps1 = take j ps @ [ps ! i]"
          using ji True by (simp add: take_Suc_conv_app_nth)
        have d2: "drop (Suc (j + length ?K)) ?ps1 = drop (Suc (j + length ?K)) ps"
          by simp
        have "add_loop s ps i j p = add_loop s ?ps1 (i + 1) (j + 1) (Some (ps ! i))"
          using True vl ne k by (subst add_loop.simps) auto
        also note ih
        finally show ?thesis
          using ne k by (simp add: d d1 t1 d2)
      next
        case nk: False
        have ih: "add_loop s ps (i + 1) j p =
           Inr (take j ps @ fst (add_scan s p (drop (i + 1) ps))
                  @ drop (j + length (fst (add_scan s p (drop (i + 1) ps)))) ps,
                if snd (add_scan s p (drop (i + 1) ps)) then None
                else Some (j + length (fst (add_scan s p (drop (i + 1) ps)))))"
          using "1.IH"(2) [OF True vl _ nk] ne "1.prems"(1) vr by simp
        have "add_loop s ps i j p = add_loop s ps (i + 1) j p"
          using True vl ne nk by (subst add_loop.simps) auto
        also note ih
        finally show ?thesis
          using ne nk by (auto simp: d)
      qed
    qed
  qed
qed


lemma neg_neg [simp]: "neg (neg l) = l"
  by (auto simp: neg_def) presburger+

lemma var_neg [simp]: "var (neg l) = var l"
  by (auto simp: neg_def var_def) presburger+

lemma sign_neg [simp]: "sign (neg l) = (\<not> sign l)"
  by (auto simp: neg_def sign_def) presburger+

lemma neg_ne [simp]: "neg l \<noteq> l" "l \<noteq> neg l"
  by (auto simp: neg_def)

lemma valueL_neg:
  "valueL s (neg l) = (case valueL s l of l_True \<Rightarrow> l_False | l_False \<Rightarrow> l_True | l_Undef \<Rightarrow> l_Undef)"
  by (auto simp: valueL_def lxor_def split: lbool.splits)

lemma add_scan_true: "\<exists>q \<in> set qs. valueL s q = l_True \<Longrightarrow> snd (add_scan s p qs)"
  by (induction qs arbitrary: p) auto

lemma add_scan_pair_after:
  "a mod 2 = 0 \<Longrightarrow> sorted qs \<Longrightarrow> \<forall>y \<in> set qs. a \<le> y \<Longrightarrow> a + 1 \<in> set qs \<Longrightarrow>
     snd (add_scan s (Some a) qs)"
proof (induction qs)
  case Nil
  then show ?case by simp
next
  case (Cons h qs)
  have na: "neg a = a + 1"
    using Cons.prems(1) by (simp add: neg_def)
  have "a \<le> h" "h \<le> a + 1"
    using Cons.prems(2,3,4) by auto
  then consider "h = a + 1" | "h = a"
    by force
  then show ?case
  proof cases
    case 1
    then show ?thesis by (simp add: na)
  next
    case 2
    then have "a + 1 \<in> set qs"
      using Cons.prems(4) by simp
    then have "snd (add_scan s (Some a) qs)"
      using Cons.IH Cons.prems by simp
    then show ?thesis
      using 2 by simp
  qed
qed

lemma add_scan_pair:
  "a mod 2 = 0 \<Longrightarrow> sorted xs \<Longrightarrow> a \<in> set xs \<Longrightarrow> a + 1 \<in> set xs \<Longrightarrow> snd (add_scan s p xs)"
proof (induction xs arbitrary: p)
  case Nil
  then show ?case by simp
next
  case (Cons q qs)
  have na: "neg a = a + 1"
    using Cons.prems(1) by (simp add: neg_def)
  show ?case
  proof (cases "valueL s q = l_True \<or> Some q = map_option neg p")
    case True
    then show ?thesis by auto
  next
    case ne: False
    consider "q = a" | "q = a + 1" "q \<noteq> a" | "q \<noteq> a" "q \<noteq> a + 1"
      by blast
    then show ?thesis
    proof cases
      case 1
      then have in1: "a + 1 \<in> set qs"
        using Cons.prems(4) by simp
      have ge: "\<forall>y \<in> set qs. a \<le> y"
        using Cons.prems(2) 1 by simp
      have sq: "sorted qs"
        using Cons.prems(2) by simp
      show ?thesis
      proof (cases "valueL s a = l_False")
        case True
        then have "valueL s (a + 1) = l_True"
          using valueL_neg [of s a] na by simp
        then have "snd (add_scan s p qs)"
          using in1 add_scan_true by blast
        then show ?thesis
          using True 1 ne by simp
      next
        case False
        have "snd (add_scan s (Some a) qs)"
          by (rule add_scan_pair_after [OF Cons.prems(1) sq ge in1])
        then show ?thesis
          using False 1 ne by auto
      qed
    next
      case 2
      then have "a \<in> set qs"
        using Cons.prems(3) by simp
      then have "q \<le> a"
        using Cons.prems(2) by simp
      then show ?thesis
        using 2 by simp
    next
      case 3
      then have m: "a \<in> set qs" "a + 1 \<in> set qs" "sorted qs"
        using Cons.prems by simp_all
      have "snd (add_scan s p' qs)" for p'
        by (rule Cons.IH [OF Cons.prems(1) m(3) m(1) m(2)])
      then show ?thesis
        using ne by simp
    qed
  qed
qed

lemma complementary_pair:
  assumes "l \<in> set xs" "neg l \<in> set xs"
  obtains a where "a mod 2 = 0" "a \<in> set xs" "a + 1 \<in> set xs"
proof (cases "l mod 2 = 0")
  case True
  then show ?thesis
    using assms that [of l] by (simp add: neg_def)
next
  case False
  then have "(l - 1) mod 2 = 0" "l - 1 + 1 = l" "neg l = l - 1"
    by (auto simp: neg_def) presburger+
  then show ?thesis
    using assms that [of "l - 1"] by simp
qed

lemma add_scan_kept:
  "\<not> snd (add_scan s p qs) \<Longrightarrow>
     fst (add_scan s p qs) =
       (case p of None \<Rightarrow> remdups_adj (filter (\<lambda>q. valueL s q \<noteq> l_False) qs)
        | Some q0 \<Rightarrow> tl (remdups_adj (q0 # filter (\<lambda>q. valueL s q \<noteq> l_False) qs)))"
proof (induction qs arbitrary: p)
  case Nil
  then show ?case by (simp split: option.splits)
next
  case (Cons q qs)
  show ?case
  proof (cases "valueL s q \<noteq> l_False \<and> Some q \<noteq> p")
    case True
    with Cons.prems have "\<not> snd (add_scan s (Some q) qs)"
      by (auto split: if_splits)
    from Cons.IH [OF this] True Cons.prems show ?thesis
      by (auto split: option.splits if_splits)
  next
    case False
    with Cons.prems have "\<not> snd (add_scan s p qs)"
      by (auto split: if_splits)
    from Cons.IH [OF this] False Cons.prems show ?thesis
      by (auto split: option.splits if_splits)
  qed
qed

lemma add_scan_strict:
  "sorted qs \<Longrightarrow> (\<forall>q0. p = Some q0 \<longrightarrow> (\<forall>y \<in> set qs. q0 \<le> y)) \<Longrightarrow>
     sorted_wrt (<) (fst (add_scan s p qs)) \<and>
     set (fst (add_scan s p qs)) \<subseteq> set qs \<and>
     (\<forall>q0. p = Some q0 \<longrightarrow> (\<forall>y \<in> set (fst (add_scan s p qs)). q0 < y))"
proof (induction qs arbitrary: p)
  case Nil
  then show ?case by simp
next
  case (Cons q qs)
  have sq: "sorted qs" and qle: "\<forall>y \<in> set qs. q \<le> y"
    using Cons.prems(1) by simp_all
  show ?case
  proof (cases "valueL s q = l_True \<or> Some q = map_option neg p")
    case True
    then show ?thesis by auto
  next
    case ne: False
    show ?thesis
    proof (cases "valueL s q \<noteq> l_False \<and> Some q \<noteq> p")
      case True
      have "\<forall>q0. Some q = Some q0 \<longrightarrow> (\<forall>y \<in> set qs. q0 \<le> y)"
        using qle by simp
      from Cons.IH [OF sq this]
      have ih: "sorted_wrt (<) (fst (add_scan s (Some q) qs))"
        "set (fst (add_scan s (Some q) qs)) \<subseteq> set qs"
        "\<forall>y \<in> set (fst (add_scan s (Some q) qs)). q < y"
        by simp_all
      have "\<forall>q0. p = Some q0 \<longrightarrow> q0 < q"
        using True Cons.prems(2) by (auto simp: le_less)
      then show ?thesis
        using True ne ih by (auto simp: subset_iff)
    next
      case False
      have "\<forall>q0. p = Some q0 \<longrightarrow> (\<forall>y \<in> set qs. q0 \<le> y)"
        using Cons.prems(2) by simp
      from Cons.IH [OF sq this] False ne show ?thesis
        by (auto simp: subset_iff)
    qed
  qed
qed


lemmas eval_defs = addClause'_def decisionLevel_def two_vars_def newVar_def Solver_init_def
  insertVarOrder_def inHeap_def heap_insert_def nVars_def occ_init_def mkLit_def vec_capacity_def
  Let_def value_lit_def valueL_def lxor_def var_def sign_def neg_def lbool_of_def
  uncheckedEnqueue_def propagate_def cleanAll_def WatcherDeleted_def ca_empty_def

lemma add_unit: "addClause' [0] two_vars = Inr (True, [0], x0_true)"
  apply (simp add: eval_defs)
  apply (subst add_loop.simps, simp add: eval_defs)
  apply (subst add_loop.simps, simp add: eval_defs)
  apply (subst propagate_loop.simps, simp add: eval_defs)
  apply (subst propagate_loop.simps, simp add: eval_defs x0_true_def)
  done


lemma attachClause_Inr:
  "attachClause cr s = Inr s1 \<Longrightarrow>
     s1 = s\<lparr> watches := watches s1, nb_lits_in_learnts := nb_lits_in_learnts s1 \<rparr>"
  by (auto simp: attachClause_def Let_def split: option.splits if_splits)

lemma attachClause_ca:
  "attachClause cr s = Inr s1 \<Longrightarrow> clauses s1 = clauses s \<and> ca s1 = ca s"
  by (auto simp: attachClause_def Let_def split: option.splits if_splits)

lemma addClause_scan:
  assumes "decisionLevel s = 0" "ok s" "\<forall>q \<in> set ps. var q < length (assigns s)"
  shows "addClause' ps s =
     (if snd (add_scan s None (sort ps))
      then Inr (True, fst (add_scan s None (sort ps))
                  @ drop (length (fst (add_scan s None (sort ps)))) (sort ps), s)
      else if length (fst (add_scan s None (sort ps))) = 0 then Inr (False, [], s\<lparr> ok := False \<rparr>)
      else if length (fst (add_scan s None (sort ps))) = 1 then
        thn (uncheckedEnqueue (fst (add_scan s None (sort ps)) ! 0) None s) (\<lambda>s1.
          thn (propagate s1) (\<lambda>(confl, s2).
            Inr (confl = None, fst (add_scan s None (sort ps)), s2\<lparr> ok := (confl = None) \<rparr>)))
      else
        thn (attachClause (ca_size (ca s))
               (s\<lparr> ca := snd (ca_alloc (fst (add_scan s None (sort ps))) False (ca s)),
                   clauses := clauses s @ [ca_size (ca s)] \<rparr>))
          (\<lambda>s2. Inr (True, fst (add_scan s None (sort ps)), s2)))"
proof -
  have "\<forall>q \<in> set (drop 0 (sort ps)). var q < length (assigns s)"
    using assms(3) by simp
  from add_loop_scan [OF le_refl this, of None]
  have l: "add_loop s (sort ps) 0 0 None =
      Inr (fst (add_scan s None (sort ps))
             @ drop (length (fst (add_scan s None (sort ps)))) (sort ps),
           if snd (add_scan s None (sort ps)) then None
           else Some (length (fst (add_scan s None (sort ps)))))"
    by simp
  show ?thesis
    using assms(1,2) by (simp add: addClause'_def l Let_def ca_alloc_def ca_alloc_clause_def)
qed

text \<open>
  Claim C8, as stated, for every clause with a complementary pair: once the empty clause
  has been added, \<^verbatim>\<open>ok\<close> is false and \<^verbatim>\<open>addClause_\<close> of the clause of
  variable 0 and its negation returns false.
\<close>

theorem addClause_tautology_counterexample:
  "neg 0 = 1 \<and> addClause' [] two_vars = Inr (False, [], two_vars_failed) \<and>
   addClause' [0, 1] two_vars_failed = Inr (False, [0, 1], two_vars_failed)"
  apply (simp add: eval_defs two_vars_failed_def)
  apply (subst add_loop.simps, simp)
  done

text \<open>
  Claim C8, amended. At decision level 0, for a clause over the variables of the solver
  that contains a literal and its negation: when \<^verbatim>\<open>ok\<close> holds, \<^verbatim>\<open>addClause_\<close>
  returns true and the state of the solver is the one before the call (no clause is
  allocated, listed or attached); when \<^verbatim>\<open>ok\<close> is false it returns false, with the
  state and the vector untouched.
\<close>

theorem addClause_tautology:
  assumes "decisionLevel s = 0" "\<forall>q \<in> set ps. var q < length (assigns s)"
    "l \<in> set ps" "neg l \<in> set ps"
  shows "(ok s \<longrightarrow> (\<exists>ps1. addClause' ps s = Inr (True, ps1, s))) \<and>
         (\<not> ok s \<longrightarrow> addClause' ps s = Inr (False, ps, s))"
proof (intro conjI impI)
  assume ok: "ok s"
  from assms(3,4) have "l \<in> set (sort ps)" "neg l \<in> set (sort ps)"
    by simp_all
  then obtain a where a: "a mod 2 = 0" "a \<in> set (sort ps)" "a + 1 \<in> set (sort ps)"
    by (rule complementary_pair)
  have "snd (add_scan s None (sort ps))"
    by (rule add_scan_pair [OF a(1) _ a(2,3)]) simp
  then show "\<exists>ps1. addClause' ps s = Inr (True, ps1, s)"
    by (simp add: addClause_scan [OF assms(1) ok assms(2)])
next
  assume "\<not> ok s"
  then show "addClause' ps s = Inr (False, ps, s)"
    using assms(1) by (simp add: addClause'_def)
qed

text \<open>The amended claim C8 for the clause of the literals 3, 0, 2 on two variables.\<close>

theorem addClause_tautology_witness:
  "decisionLevel two_vars = 0 \<and> 2 \<in> set [3, 0, 2 :: nat] \<and> neg 2 \<in> set [3, 0, 2] \<and> ok two_vars \<and>
   (\<exists>ps1. addClause' [3, 0, 2] two_vars = Inr (True, ps1, two_vars))"
proof -
  have h: "decisionLevel two_vars = 0" "\<forall>q \<in> set [3, 0, 2]. var q < length (assigns two_vars)"
    "2 \<in> set [3, 0, 2::nat]" "neg 2 \<in> set [3, 0, 2]" "ok two_vars"
    by (simp_all add: eval_defs)
  from addClause_tautology [OF h(1,2,3,4)] h show ?thesis
    by blast
qed

text \<open>
  Claim C10, as stated, for every input clause: once \<^verbatim>\<open>ok\<close> is false,
  \<^verbatim>\<open>addClause_\<close> returns before sorting, and the vector \<open>[3, 2]\<close> comes back as
  it was, unsorted.
\<close>

theorem addClause_ps_counterexample:
  "addClause' [] two_vars = Inr (False, [], two_vars_failed) \<and>
   addClause' [3, 2] two_vars_failed = Inr (False, [3, 2], two_vars_failed) \<and>
   sort [3, 2 :: nat] \<noteq> [3, 2]"
  apply (simp add: eval_defs two_vars_failed_def)
  apply (subst add_loop.simps, simp)
  done

text \<open>
  Claim C10, amended. At decision level 0, for a clause over the variables of the
  solver, when \<^verbatim>\<open>addClause_\<close> returns: if \<^verbatim>\<open>ok\<close> was false the vector and the
  state are untouched; if \<^verbatim>\<open>ok\<close> held and the clause is dropped as satisfied, the
  state is untouched and the vector is the sorted one with a prefix overwritten by the
  literals kept until then; if \<^verbatim>\<open>ok\<close> held and the clause is not dropped, the vector
  is the sorted one without its false literals and without duplicates, and this is the
  clause that is stored when it has at least two literals.
\<close>

theorem addClause_ps:
  assumes "decisionLevel s = 0" "\<forall>q \<in> set ps. var q < length (assigns s)"
    "addClause' ps s = Inr (b, ps1, s1)"
  shows "(\<not> ok s \<longrightarrow> \<not> b \<and> ps1 = ps \<and> s1 = s) \<and>
         (ok s \<and> snd (add_scan s None (sort ps)) \<longrightarrow>
            b \<and> s1 = s \<and>
            ps1 = fst (add_scan s None (sort ps))
                    @ drop (length (fst (add_scan s None (sort ps)))) (sort ps)) \<and>
         (ok s \<and> \<not> snd (add_scan s None (sort ps)) \<longrightarrow>
            ps1 = remdups_adj (filter (\<lambda>q. valueL s q \<noteq> l_False) (sort ps)) \<and>
            sorted ps1 \<and> distinct ps1 \<and>
            (2 \<le> length ps1 \<longrightarrow>
               b \<and> clauses s1 = clauses s @ [ca_size (ca s)] \<and>
               map_option c_lits (mem (ca s1) (ca_size (ca s))) = Some ps1))"
proof -
  let ?K = "fst (add_scan s None (sort ps))"
  have A: "\<not> b \<and> ps1 = ps \<and> s1 = s" if "\<not> ok s"
    using that assms(1,3) by (simp add: addClause'_def)
  have B: "b \<and> s1 = s \<and> ps1 = ?K @ drop (length ?K) (sort ps)"
    if "ok s \<and> snd (add_scan s None (sort ps))"
    using that assms(3) addClause_scan [OF assms(1) _ assms(2)] by auto
  have C: "ps1 = remdups_adj (filter (\<lambda>q. valueL s q \<noteq> l_False) (sort ps)) \<and>
            sorted ps1 \<and> distinct ps1 \<and>
            (2 \<le> length ps1 \<longrightarrow>
               b \<and> clauses s1 = clauses s @ [ca_size (ca s)] \<and>
               map_option c_lits (mem (ca s1) (ca_size (ca s))) = Some ps1)"
    if a: "ok s \<and> \<not> snd (add_scan s None (sort ps))"
  proof -
  have K: "?K = remdups_adj (filter (\<lambda>q. valueL s q \<noteq> l_False) (sort ps))"
    using add_scan_kept [of s None "sort ps"] a by simp
  have st: "sorted_wrt (<) ?K"
    using add_scan_strict [of "sort ps" None s] by simp
  have e: "addClause' ps s =
     (if length ?K = 0 then Inr (False, [], s\<lparr> ok := False \<rparr>)
      else if length ?K = 1 then
        thn (uncheckedEnqueue (?K ! 0) None s) (\<lambda>s1.
          thn (propagate s1) (\<lambda>(confl, s2).
            Inr (confl = None, ?K, s2\<lparr> ok := (confl = None) \<rparr>)))
      else
        thn (attachClause (ca_size (ca s))
               (s\<lparr> ca := snd (ca_alloc ?K False (ca s)),
                   clauses := clauses s @ [ca_size (ca s)] \<rparr>))
          (\<lambda>s2. Inr (True, ?K, s2)))"
    using a addClause_scan [OF assms(1) _ assms(2)] by simp
  have p1: "ps1 = ?K"
    using assms(3) e by (auto simp: thn_Inr_iff split: if_splits)
  have big: "b \<and> clauses s1 = clauses s @ [ca_size (ca s)] \<and>
               map_option c_lits (mem (ca s1) (ca_size (ca s))) = Some ps1" if "2 \<le> length ps1"
  proof -
    from that p1 assms(3) e obtain s2 where
      at: "attachClause (ca_size (ca s))
               (s\<lparr> ca := snd (ca_alloc ?K False (ca s)),
                   clauses := clauses s @ [ca_size (ca s)] \<rparr>) = Inr s2"
      and r: "b" "s1 = s2"
      by (auto simp: thn_Inr_iff split: if_splits)
    from attachClause_ca [OF at] have
      "clauses s2 = clauses s @ [ca_size (ca s)]" "ca s2 = snd (ca_alloc ?K False (ca s))"
      by simp_all
    then show ?thesis
      using r p1 by (simp add: ca_alloc_def ca_alloc_clause_def)
  qed
  show ?thesis
    using p1 K st big by (simp add: strict_sorted_iff)
  qed
  show ?thesis
    using A B C by blast
qed

text \<open>
  The amended claim C10 where variable 0 is true: the clause of the literals 3, 2, 1 is
  dropped, and the vector comes back as \<open>[2, 2, 3]\<close>.
\<close>

theorem addClause_ps_witness:
  "addClause' [3, 2, 1] x0_true = Inr (True, [2, 2, 3], x0_true) \<and>
   decisionLevel x0_true = 0 \<and> ok x0_true \<and> snd (add_scan x0_true None (sort [3, 2, 1])) \<and>
   [2, 2, 3] = fst (add_scan x0_true None (sort [3, 2, 1]))
                 @ drop (length (fst (add_scan x0_true None (sort [3, 2, 1])))) (sort [3, 2, 1])"
proof -
  have h: "decisionLevel x0_true = 0" "\<forall>q \<in> set [3, 2, 1]. var q < length (assigns x0_true)"
    "ok x0_true" "snd (add_scan x0_true None (sort [3, 2, 1]))"
    by (simp_all add: eval_defs x0_true_def)
  have r: "addClause' [3, 2, 1] x0_true = Inr (True, [2, 2, 3], x0_true)"
    apply (simp add: eval_defs x0_true_def)
    apply (subst add_loop.simps, simp add: eval_defs)
    apply (subst add_loop.simps, simp add: eval_defs)
    apply (subst add_loop.simps, simp add: eval_defs)
    done
  from addClause_ps [OF h(1,2) r] h r show ?thesis
    by simp
qed


subsection \<open>Frames of propagate and analyze\<close>

lemma fr_propagate_upd [simp]:
  "fr_propagate (s\<lparr> qhead := a \<rparr>) = fr_propagate s"
  "fr_propagate (s\<lparr> propagations := b \<rparr>) = fr_propagate s"
  "fr_propagate (s\<lparr> watches := c \<rparr>) = fr_propagate s"
  "fr_propagate (s\<lparr> ca := d \<rparr>) = fr_propagate s"
  "fr_propagate (s\<lparr> assigns := e \<rparr>) = fr_propagate s"
  "fr_propagate (s\<lparr> vardata := f \<rparr>) = fr_propagate s"
  "fr_propagate (s\<lparr> trail := g \<rparr>) = fr_propagate s"
  by (simp_all add: fr_propagate_def)

lemma propagate_watcher_frame:
  "propagate_watcher p w s = Inr (v, s1) \<Longrightarrow> fr_propagate s1 = fr_propagate s"
  by (elim propagate_watcher_elim) simp_all

lemma propagate_ws_frame:
  "propagate_ws p ws kept s = Inr (c, ws1, s1) \<Longrightarrow> fr_propagate s1 = fr_propagate s"
proof (induction ws arbitrary: kept s)
  case Nil
  then show ?case by simp
next
  case (Cons w ws)
  from Cons.prems obtain v s0 where pw: "propagate_watcher p w s = Inr (v, s0)"
    by (cases "propagate_watcher p w s") (auto split: prod.splits)
  note f = propagate_watcher_frame [OF pw]
  from Cons.prems pw Cons.IH f show ?case
    by (cases v) auto
qed

lemma propagate_loop_induct_Inr [consumes 1, case_names stop turn]:
  assumes "propagate_loop confl s = Inr (c, s')"
    and stop: "\<And>confl s. \<not> qhead s < length (trail s) \<Longrightarrow> P confl s confl s"
    and turn: "\<And>confl s c0 ws s2 c s'.
       qhead s < length (trail s) \<Longrightarrow> trail s ! qhead s < length (watches s) \<Longrightarrow>
       propagate_ws (trail s ! qhead s) (watches s ! (trail s ! qhead s)) []
         (s\<lparr> qhead := qhead s + 1, propagations := propagations s + 1 \<rparr>) = Inr (c0, ws, s2) \<Longrightarrow>
       propagate_loop (case c0 of None \<Rightarrow> confl | Some cr \<Rightarrow> Some cr)
         (s2\<lparr> watches := (watches s2)[trail s ! qhead s := ws] \<rparr>) = Inr (c, s') \<Longrightarrow>
       P (case c0 of None \<Rightarrow> confl | Some cr \<Rightarrow> Some cr)
         (s2\<lparr> watches := (watches s2)[trail s ! qhead s := ws] \<rparr>) c s' \<Longrightarrow>
       P confl s c s'"
  shows "P confl s c s'"
  using assms(1)
proof (induction confl s rule: propagate_loop.induct)
  case (1 confl s)
  show ?case
  proof (cases "qhead s < length (trail s)")
    case False
    with "1.prems" have "c = confl" "s' = s"
      by (subst (asm) propagate_loop.simps, simp)+
    with stop [OF False] show ?thesis
      by simp
  next
    case True
    let ?p = "trail s ! qhead s"
    let ?s1 = "s\<lparr> qhead := qhead s + 1, propagations := propagations s + 1 \<rparr>"
    from "1.prems" True have pl: "?p < length (watches s)"
      by (subst (asm) propagate_loop.simps) (auto simp: Let_def split: if_splits)
    then have nn: "\<not> \<not> ?p < length (watches ?s1)"
      by simp
    from "1.prems" True pl obtain c0 ws s2 where
      pw: "propagate_ws ?p (watches ?s1 ! ?p) [] ?s1 = Inr (c0, ws, s2)"
      and r: "propagate_loop (case c0 of None \<Rightarrow> confl | Some cr \<Rightarrow> Some cr)
                (s2\<lparr> watches := (watches s2)[?p := ws] \<rparr>) = Inr (c, s')"
      by (subst (asm) propagate_loop.simps)
        (auto simp: Let_def split: if_splits sum.splits prod.splits)
    have ih: "P (case c0 of None \<Rightarrow> confl | Some cr \<Rightarrow> Some cr)
                (s2\<lparr> watches := (watches s2)[?p := ws] \<rparr>) c s'"
      by (rule "1.IH" [OF True refl refl nn pw refl refl r])
    from pw have pw': "propagate_ws ?p (watches s ! ?p) [] ?s1 = Inr (c0, ws, s2)"
      by simp
    show ?thesis
      by (rule turn [OF True pl pw' r ih])
  qed
qed

lemma propagate_loop_frame:
  "propagate_loop confl s = Inr (c, s1) \<Longrightarrow> fr_propagate s1 = fr_propagate s"
proof (induction rule: propagate_loop_induct_Inr)
  case (stop confl s)
  then show ?case by simp
next
  case (turn confl s c0 ws s2 c s')
  from propagate_ws_frame [OF turn(3)] turn(5) show ?case
    by simp
qed

lemma propagate_frame: "propagate s = Inr (c, s1) \<Longrightarrow> fr_propagate s1 = fr_propagate s"
  by (auto simp: propagate_def cleanAll_def dest: propagate_loop_frame)


lemma fr_analyze_upd [simp]:
  "fr_analyze (s\<lparr> nb_resolutions := a \<rparr>) = fr_analyze s"
  "fr_analyze (s\<lparr> ca := b \<rparr>) = fr_analyze s"
  "fr_analyze (s\<lparr> cla_inc := c \<rparr>) = fr_analyze s"
  "fr_analyze (s\<lparr> activity := d \<rparr>) = fr_analyze s"
  "fr_analyze (s\<lparr> var_inc := e \<rparr>) = fr_analyze s"
  "fr_analyze (s\<lparr> seen := f \<rparr>) = fr_analyze s"
  "fr_analyze (s\<lparr> FLAG := g \<rparr>) = fr_analyze s"
  "fr_analyze (s\<lparr> levelTagged := h \<rparr>) = fr_analyze s"
  by (simp_all add: fr_analyze_def)

lemma varBumpActivity_frame:
  "varBumpActivity v s = Inr s1 \<Longrightarrow> fr_analyze s1 = fr_analyze s"
  by (auto simp: varBumpActivity_def Let_def split: if_splits)

lemma claBumpActivity_frame:
  "claBumpActivity cr s = Inr s1 \<Longrightarrow> fr_analyze s1 = fr_analyze s"
  by (auto simp: claBumpActivity_def Let_def thn_Inr_iff split: option.splits if_splits)

lemma analyze_lits_frame:
  "analyze_lits qs out nb s = Inr (out1, nb1, s1) \<Longrightarrow> fr_analyze s1 = fr_analyze s"
proof (induction qs arbitrary: out nb s)
  case Nil
  then show ?case by simp
next
  case (Cons q qs)
  show ?case
  proof (cases "var q < length (seen s) \<and> \<not> seen s ! var q \<and> var q < length (vardata s)
      \<and> level s (var q) > 0")
    case False
    with Cons.prems have "analyze_lits qs out nb s = Inr (out1, nb1, s1)"
      by (auto split: if_splits)
    then show ?thesis by (rule Cons.IH)
  next
    case True
    with Cons.prems obtain s0 where b: "varBumpActivity (var q) s = Inr s0"
      by (cases "varBumpActivity (var q) s") auto
    let ?s2 = "s0\<lparr> seen := (seen s0)[var q := True] \<rparr>"
    from Cons.prems True b have
      "analyze_lits qs out (nb + 1) ?s2 = Inr (out1, nb1, s1)
       \<or> analyze_lits qs (out @ [q]) nb ?s2 = Inr (out1, nb1, s1)"
      by (auto simp: Let_def split: if_splits)
    then have "fr_analyze s1 = fr_analyze ?s2"
      using Cons.IH by blast
    with varBumpActivity_frame [OF b] show ?thesis
      by simp
  qed
qed

lemma analyze_loop_induct_Inr [consumes 1, case_names turn]:
  assumes "analyze_loop confl p out nb n s = Inr r"
    and turn: "\<And>confl p out nb n s r cr c s1 out1 nb1 s2 i.
       confl = Some cr \<Longrightarrow> mem (ca s) cr = Some c \<Longrightarrow>
       (if c_learnt c then claBumpActivity cr (s\<lparr> nb_resolutions := nb_resolutions s + 1 \<rparr>)
        else Inr (s\<lparr> nb_resolutions := nb_resolutions s + 1 \<rparr>)) = Inr s1 \<Longrightarrow>
       analyze_lits (drop (if p = None then 0 else 1) (c_lits c)) out nb s1 = Inr (out1, nb1, s2) \<Longrightarrow>
       analyze_scan s2 n = Inr i \<Longrightarrow>
       var (trail s2 ! i) < length (vardata s2) \<Longrightarrow>
       (if nb1 - 1 > 0
        then analyze_loop (reason s2 (var (trail s2 ! i))) (Some (trail s2 ! i)) out1 (nb1 - 1) i
               (s2\<lparr> seen := (seen s2)[var (trail s2 ! i) := False] \<rparr>) = Inr r
             \<and> P (reason s2 (var (trail s2 ! i))) (Some (trail s2 ! i)) out1 (nb1 - 1) i
               (s2\<lparr> seen := (seen s2)[var (trail s2 ! i) := False] \<rparr>) r
        else r = (trail s2 ! i, out1, s2\<lparr> seen := (seen s2)[var (trail s2 ! i) := False] \<rparr>)) \<Longrightarrow>
       P confl p out nb n s r"
  shows "P confl p out nb n s r"
  using assms(1)
proof (induction confl p out nb n s rule: analyze_loop.induct)
  case (1 confl p out nb n s)
  from "1.prems" obtain cr where cr: "confl = Some cr"
    by (subst (asm) analyze_loop.simps) (auto split: option.splits)
  from "1.prems" cr obtain c where c: "mem (ca s) cr = Some c"
    by (subst (asm) analyze_loop.simps) (auto split: option.splits)
  let ?b = "if c_learnt c then claBumpActivity cr (s\<lparr> nb_resolutions := nb_resolutions s + 1 \<rparr>)
        else Inr (s\<lparr> nb_resolutions := nb_resolutions s + 1 \<rparr>)"
  from "1.prems" cr c obtain s1 where s1: "?b = Inr s1"
    by (subst (asm) analyze_loop.simps) (auto split: sum.splits)
  from "1.prems" cr c s1 obtain out1 nb1 s2 where
    al: "analyze_lits (drop (if p = None then 0 else 1) (c_lits c)) out nb s1 = Inr (out1, nb1, s2)"
    by (subst (asm) analyze_loop.simps) (auto split: sum.splits)
  from "1.prems" cr c s1 al obtain i where i: "analyze_scan s2 n = Inr i"
    by (subst (asm) analyze_loop.simps) (auto split: sum.splits)
  from "1.prems" cr c s1 al i have v: "var (trail s2 ! i) < length (vardata s2)"
    by (subst (asm) analyze_loop.simps) (auto split: if_splits)
  let ?s3 = "s2\<lparr> seen := (seen s2)[var (trail s2 ! i) := False] \<rparr>"
  from "1.prems" cr c s1 al i v have
    r: "(if nb1 - 1 > 0
        then analyze_loop (reason s2 (var (trail s2 ! i))) (Some (trail s2 ! i)) out1 (nb1 - 1) i ?s3
        else Inr (trail s2 ! i, out1, ?s3)) = Inr r"
    by (subst (asm) analyze_loop.simps) simp
  have nv: "\<not> \<not> var (trail s2 ! i) < length (vardata s2)"
    using v by simp
  have "if nb1 - 1 > 0
        then analyze_loop (reason s2 (var (trail s2 ! i))) (Some (trail s2 ! i)) out1 (nb1 - 1) i ?s3 = Inr r
             \<and> P (reason s2 (var (trail s2 ! i))) (Some (trail s2 ! i)) out1 (nb1 - 1) i ?s3 r
        else r = (trail s2 ! i, out1, ?s3)"
  proof (cases "nb1 - 1 > 0")
    case True
    with r have rr: "analyze_loop (reason s2 (var (trail s2 ! i))) (Some (trail s2 ! i)) out1
        (nb1 - 1) i ?s3 = Inr r"
      by simp
    have "P (reason s2 (var (trail s2 ! i))) (Some (trail s2 ! i)) out1 (nb1 - 1) i ?s3 r"
      by (rule "1.IH" [OF cr c s1 al refl refl i nv True rr])
    with True rr show ?thesis by simp
  next
    case False
    with r show ?thesis by simp
  qed
  then show ?case
    by (rule turn [OF cr c s1 al i v])
qed

lemma analyze_loop_frame:
  "analyze_loop confl p out nb n s = Inr (p1, out1, s1) \<Longrightarrow> fr_analyze s1 = fr_analyze s"
proof (induction confl p out nb n s "(p1, out1, s1)" rule: analyze_loop_induct_Inr)
  case (turn confl p out nb n s cr c sa outa nba sb i)
  have a: "fr_analyze sa = fr_analyze s"
    using turn(3) by (auto split: if_splits dest: claBumpActivity_frame)
  have b: "fr_analyze sb = fr_analyze sa"
    by (rule analyze_lits_frame [OF turn(4)])
  from turn(7) a b show ?case
    by (auto split: if_splits)
qed

lemma lbd_loop_frame:
  "lbd_loop qs k s = Inr (k1, s1) \<Longrightarrow> fr_analyze s1 = fr_analyze s"
  by (induction qs arbitrary: k s) (auto split: if_splits)

lemma clear_seen_frame:
  "clear_seen qs s = Inr s1 \<Longrightarrow> fr_analyze s1 = fr_analyze s"
  by (induction qs arbitrary: s) (auto split: if_splits)

lemma analyze_frame:
  "analyze confl s = Inr (out, bt, lbd, s1) \<Longrightarrow> fr_analyze s1 = fr_analyze s"
  by (auto simp: analyze_def computeLBD_def thn_Inr_iff
      dest!: analyze_loop_frame lbd_loop_frame clear_seen_frame)


subsection \<open>analyze\<close>

lemma fr_analyze_keeps:
  assumes "fr_analyze s1 = fr_analyze s"
  shows "trail s1 = trail s" "vardata s1 = vardata s" "assigns s1 = assigns s"
    "trail_lim s1 = trail_lim s" "watches s1 = watches s" "clauses s1 = clauses s"
    "learnts s1 = learnts s" "qhead s1 = qhead s" "conflicts s1 = conflicts s"
    "lbdQueue s1 = lbdQueue s" "conflict_budget s1 = conflict_budget s"
    "order_heap s1 = order_heap s" "polarity s1 = polarity s" "ok s1 = ok s"
    "trail_cap s1 = trail_cap s" "model s1 = model s"
proof -
  have "f (fr_analyze s1) = f (fr_analyze s)" for f :: "Solver \<Rightarrow> 'a"
    using assms by simp
  from this [of trail] this [of vardata] this [of assigns] this [of trail_lim] this [of watches]
    this [of clauses] this [of learnts] this [of qhead] this [of conflicts] this [of lbdQueue]
    this [of conflict_budget] this [of order_heap] this [of polarity] this [of ok]
    this [of trail_cap] this [of model]
  show "trail s1 = trail s" "vardata s1 = vardata s" "assigns s1 = assigns s"
    "trail_lim s1 = trail_lim s" "watches s1 = watches s" "clauses s1 = clauses s"
    "learnts s1 = learnts s" "qhead s1 = qhead s" "conflicts s1 = conflicts s"
    "lbdQueue s1 = lbdQueue s" "conflict_budget s1 = conflict_budget s"
    "order_heap s1 = order_heap s" "polarity s1 = polarity s" "ok s1 = ok s"
    "trail_cap s1 = trail_cap s" "model s1 = model s"
    by (simp_all add: fr_analyze_def)
qed

lemma analyze_max_upto:
  "2 \<le> b \<Longrightarrow>
     1 \<le> fold (\<lambda>i max_i. if level s (var (out ! i)) > level s (var (out ! max_i)) then i else max_i)
            [2 ..< b] 1 \<and>
     fold (\<lambda>i max_i. if level s (var (out ! i)) > level s (var (out ! max_i)) then i else max_i)
            [2 ..< b] 1 < b \<and>
     (\<forall>i. 1 \<le> i \<and> i < b \<longrightarrow>
        level s (var (out ! i)) \<le> level s (var (out !
          fold (\<lambda>i max_i. if level s (var (out ! i)) > level s (var (out ! max_i)) then i else max_i)
            [2 ..< b] 1)))"
proof (induction b)
  case 0
  then show ?case by simp
next
  case (Suc b)
  show ?case
  proof (cases "b = 1")
    case True
    have i1: "i = Suc 0" if "Suc 0 \<le> i" "i < Suc (Suc 0)" for i
      using that by arith
    show ?thesis
      using True by (auto simp: numeral_2_eq_2 dest: i1)
  next
    case False
    with Suc.prems have b: "2 \<le> b" by simp
    note ih = Suc.IH [OF b]
    have u: "[2 ..< Suc b] = [2 ..< b] @ [b]"
      using b by simp
    show ?thesis
      unfolding u fold_append comp_def fold_simps
      using ih by (auto simp: less_Suc_eq)
  qed
qed

lemma analyze_max_prop:
  assumes "2 \<le> length out"
  shows "1 \<le> analyze_max s out" "analyze_max s out < length out"
    "\<forall>i. 1 \<le> i \<and> i < length out \<longrightarrow>
       level s (var (out ! i)) \<le> level s (var (out ! analyze_max s out))"
  using analyze_max_upto [OF assms, of s out] by (simp_all add: analyze_max_def)

lemma analyze_lits_out:
  "analyze_lits qs out nb s = Inr (out1, nb1, s1) \<Longrightarrow> length out \<le> length out1"
proof (induction qs arbitrary: out nb s)
  case Nil
  then show ?case by simp
next
  case (Cons q qs)
  show ?case
  proof (cases "var q < length (seen s) \<and> \<not> seen s ! var q \<and> var q < length (vardata s)
      \<and> level s (var q) > 0")
    case False
    with Cons.prems have "analyze_lits qs out nb s = Inr (out1, nb1, s1)"
      by (auto split: if_splits)
    then show ?thesis by (rule Cons.IH)
  next
    case True
    with Cons.prems obtain s0 where b: "varBumpActivity (var q) s = Inr s0"
      by (cases "varBumpActivity (var q) s") auto
    let ?s2 = "s0\<lparr> seen := (seen s0)[var q := True] \<rparr>"
    from Cons.prems True b have
      "analyze_lits qs out (nb + 1) ?s2 = Inr (out1, nb1, s1)
       \<or> analyze_lits qs (out @ [q]) nb ?s2 = Inr (out1, nb1, s1)"
      by (auto simp: Let_def split: if_splits)
    then show ?thesis
      using Cons.IH by fastforce
  qed
qed

lemma analyze_scan_trail: "analyze_scan s n = Inr i \<Longrightarrow> i < length (trail s)"
  by (induction n) (auto split: if_splits)

lemma analyze_loop_out:
  "analyze_loop confl p out nb n s = Inr (p1, out1, s1) \<Longrightarrow>
     length out \<le> length out1 \<and> p1 \<in> set (trail s)"
proof (induction confl p out nb n s "(p1, out1, s1)" rule: analyze_loop_induct_Inr)
  case (turn confl p out nb n s cr c sa outa nba sb i)
  have a: "fr_analyze sa = fr_analyze s"
    using turn(3) by (auto split: if_splits dest: claBumpActivity_frame)
  have b: "fr_analyze sb = fr_analyze sa"
    by (rule analyze_lits_frame [OF turn(4)])
  have t: "trail sb = trail s"
    using fr_analyze_keeps(1) [OF a] fr_analyze_keeps(1) [OF b] by simp
  have l: "length out \<le> length outa"
    by (rule analyze_lits_out [OF turn(4)])
  have m: "trail sb ! i \<in> set (trail s)"
    using analyze_scan_trail [OF turn(5)] t by simp
  from turn(7) l m t show ?case
    by (auto split: if_splits)
qed

lemma swap_tl_set:
  assumes "1 \<le> m" "m < length xs" "2 \<le> length xs"
  shows "set (tl (xs[m := xs ! 1, 1 := xs ! m])) = set (tl xs)"
proof -
  obtain x ys where xs: "xs = x # ys"
    using assms(3) by (cases xs) auto
  obtain k where k: "m = Suc k" "k < length ys"
    using assms(1,2) xs by (cases m) auto
  have ys: "ys \<noteq> []"
    using k by auto
  have "set (ys[k := ys ! 0, 0 := ys ! k]) = set ys"
    using k ys by (simp add: set_swap)
  then show ?thesis
    by (simp add: xs k)
qed

lemma analyze_finish_prop:
  assumes "analyze_finish s p out = Inr (out_learnt, bt)" "out \<noteq> []"
  shows "out_learnt ! 0 = neg p \<and> length out_learnt = length out \<and>
     (length out_learnt = 1 \<longrightarrow> bt = 0 \<and> out_learnt = out[0 := neg p]) \<and>
     (length out_learnt \<noteq> 1 \<longrightarrow>
        (\<exists>max_i. 1 \<le> max_i \<and> max_i < length out \<and>
           out_learnt = (out[0 := neg p])[max_i := out[0 := neg p] ! 1, 1 := out[0 := neg p] ! max_i]) \<and>
        bt = level s (var (out_learnt ! 1)) \<and>
        bt = Max ((\<lambda>q. level s (var q)) ` set (tl out_learnt)))"
proof (cases "length out = 1")
  case True
  with assms show ?thesis
    by (auto simp: analyze_finish_def Let_def)
next
  case False
  let ?o = "out[0 := neg p]"
  let ?m = "analyze_max s ?o"
  from False assms(2) have l2: "2 \<le> length ?o"
    by (cases out) (auto simp: Suc_le_eq)
  note mp = analyze_max_prop [OF l2, of s]
  from assms(1) False have ol: "out_learnt = ?o[?m := ?o ! 1, 1 := ?o ! ?m]"
    and bt: "bt = level s (var (?o ! ?m))"
    by (auto simp: analyze_finish_def Let_def split: if_splits)
  have o1: "out_learnt ! 1 = ?o ! ?m"
    using l2 by (simp add: ol)
  have o0: "out_learnt ! 0 = neg p"
    using l2 mp(1) assms(2) by (simp add: ol nth_list_update)
  have st: "set (tl out_learnt) = set (tl ?o)"
    unfolding ol by (rule swap_tl_set [OF mp(1) mp(2) l2])
  have mem: "?o ! ?m \<in> set (tl ?o)"
  proof -
    obtain x ys where xs: "?o = x # ys"
      using l2 by (cases ?o) auto
    obtain k where k: "?m = Suc k"
      using mp(1) by (cases ?m) auto
    have "k < length ys"
      using mp(2) xs k by (metis Suc_less_eq length_Cons)
    then have "ys ! k \<in> set ys" by simp
    then show ?thesis
      by (metis xs k list.sel(3) nth_Cons_Suc)
  qed
  have le: "\<forall>q \<in> set (tl ?o). level s (var q) \<le> level s (var (?o ! ?m))"
  proof
    fix q assume "q \<in> set (tl ?o)"
    then obtain j where j: "j < length (tl ?o)" "q = tl ?o ! j"
      by (metis in_set_conv_nth)
    then have "q = ?o ! Suc j" "Suc j < length ?o"
      by (simp_all add: nth_tl)
    with mp(3) show "level s (var q) \<le> level s (var (?o ! ?m))"
      by auto
  qed
  have mx: "Max ((\<lambda>q. level s (var q)) ` set (tl out_learnt)) = level s (var (?o ! ?m))"
    unfolding st by (rule Max_eqI) (use le mem in auto)
  show ?thesis
    using False o0 o1 bt mx mp(1,2) ol by auto
qed



lemma node_above: "k \<in> set [j + 1 ..< n + 1] \<longleftrightarrow> j < k \<and> k \<le> n"
  by auto

lemma reaches_iff:
  "reaches s confl u j \<longleftrightarrow>
     j = length (trail s) \<or>
     (j < length (trail s) \<and> Some j \<noteq> u \<and>
      (\<exists>k. j < k \<and> k \<le> length (trail s) \<and> edge s confl j k \<and> reaches s confl u k))"
  by (subst reaches.simps, unfold Bex_def node_above) blast

lemma reaches_conflict [simp]: "reaches s confl u (length (trail s))"
  by (subst reaches_iff) simp

lemma reaches_le: "reaches s confl u j \<Longrightarrow> j \<le> length (trail s)"
  by (subst (asm) reaches_iff) auto

lemma reaches_None: "reaches s confl u j \<Longrightarrow> reaches s confl None j"
proof (induction s confl u j rule: reaches.induct)
  case (1 s confl u j)
  show ?case
  proof (cases "j = length (trail s)")
    case True
    then show ?thesis by simp
  next
    case False
    with "1.prems" obtain k where k: "j < length (trail s)" "j < k" "k \<le> length (trail s)"
      "edge s confl j k" "reaches s confl u k"
      by (subst (asm) reaches_iff) auto
    then have "k \<in> set [j + 1 ..< length (trail s) + 1]"
      unfolding node_above by simp
    from "1.IH" [OF this k(5)] k show ?thesis
      by (subst reaches_iff) auto
  qed
qed

lemma reaches_above:
  "reaches s confl None j \<Longrightarrow> u < j \<Longrightarrow> reaches s confl (Some u) j"
proof (induction s confl "None :: nat option" j rule: reaches.induct)
  case (1 s confl j)
  show ?case
  proof (cases "j = length (trail s)")
    case True
    then show ?thesis by simp
  next
    case False
    with "1.prems"(1) obtain k where k: "j < length (trail s)" "j < k" "k \<le> length (trail s)"
      "edge s confl j k" "reaches s confl None k"
      by (subst (asm) reaches_iff) auto
    then have "k \<in> set [j + 1 ..< length (trail s) + 1]"
      unfolding node_above by simp
    from "1.hyps" [OF this k(5)] k "1.prems"(2) have "reaches s confl (Some u) k"
      by simp
    with k "1.prems"(2) show ?thesis
      by (subst reaches_iff) auto
  qed
qed

lemma reaches_avoid:
  "reaches s confl None j \<Longrightarrow> \<not> reaches s confl None u \<Longrightarrow> reaches s confl (Some u) j"
proof (induction s confl "None :: nat option" j rule: reaches.induct)
  case (1 s confl j)
  show ?case
  proof (cases "j = length (trail s)")
    case True
    then show ?thesis by simp
  next
    case False
    with "1.prems"(1) obtain k where k: "j < length (trail s)" "j < k" "k \<le> length (trail s)"
      "edge s confl j k" "reaches s confl None k"
      by (subst (asm) reaches_iff) auto
    then have "k \<in> set [j + 1 ..< length (trail s) + 1]"
      unfolding node_above by simp
    from "1.hyps" [OF this k(5) "1.prems"(2)] have "reaches s confl (Some u) k" .
    moreover from "1.prems" have "j \<noteq> u" by auto
    ultimately show ?thesis
      using k by (subst reaches_iff) auto
  qed
qed

lemma uip_reaches: "uip s confl u \<Longrightarrow> reaches s confl None u"
  using reaches_avoid [of s confl "last_decision s" u] by (auto simp: uip_def)


lemma reaches_from_decision:
  assumes e: "\<forall>k. lo < k \<and> k \<le> length (trail s) \<longrightarrow> (\<exists>j<k. lo \<le> j \<and> edge s confl j k)"
  shows "reaches s confl u v \<Longrightarrow> lo \<le> v \<Longrightarrow> (\<forall>w. u = Some w \<longrightarrow> v < w) \<Longrightarrow>
     reaches s confl u lo"
proof (induction v rule: less_induct)
  case (less v)
  show ?case
  proof (cases "v = lo")
    case True
    with less.prems show ?thesis by simp
  next
    case False
    with less.prems(2) have cv: "lo < v" by simp
    from reaches_le [OF less.prems(1)] have vl: "v \<le> length (trail s)" .
    with e cv obtain j where j: "j < v" "lo \<le> j" "edge s confl j v"
      by blast
    have "Some j \<noteq> u"
      using less.prems(3) j(1) by auto
    with j vl less.prems(1) have "reaches s confl u j"
      by (subst reaches_iff) auto
    moreover have "\<forall>w. u = Some w \<longrightarrow> j < w"
      using less.prems(3) j(1) by auto
    ultimately show ?thesis
      using less.IH [OF j(1) _ j(2)] by blast
  qed
qed

lemma analyze_scan_max:
  "analyze_scan s n = Inr i \<Longrightarrow>
     i < n \<and> i < length (trail s) \<and> var (trail s ! i) < length (seen s) \<and> seen_at s i \<and>
     (\<forall>j. i < j \<and> j < n \<longrightarrow> \<not> seen_at s j)"
proof (induction n)
  case 0
  then show ?case by simp
next
  case (Suc n)
  show ?case
  proof (cases "seen s ! var (trail s ! n)")
    case True
    with Suc.prems have "i = n" "n < length (trail s)" "var (trail s ! n) < length (seen s)"
      by (auto split: if_splits)
    with True show ?thesis
      by (auto simp: seen_at_def)
  next
    case False
    with Suc.prems have "analyze_scan s n = Inr i"
      by (auto split: if_splits)
    from Suc.IH [OF this] False show ?thesis
      by (auto simp: seen_at_def less_Suc_eq)
  qed
qed

lemma cla_rescale_lits:
  "cla_rescale crs a = Inr a1 \<Longrightarrow> map_option c_lits (mem a1 x) = map_option c_lits (mem a x)"
proof (induction crs arbitrary: a)
  case Nil
  then show ?case by simp
next
  case (Cons cr crs)
  from Cons.prems obtain c where c: "mem a cr = Some c" "c_learnt c"
    by (auto split: option.splits if_splits)
  with Cons.prems have
    "cla_rescale crs (ca_set cr (c\<lparr> c_activity := c_activity c * double_1e_20 \<rparr>) a) = Inr a1"
    by simp
  from Cons.IH [OF this] c show ?case
    by (auto simp: ca_set_def)
qed

lemma claBumpActivity_lits:
  assumes "claBumpActivity cr s = Inr s1"
  shows "clause_at s1 x = clause_at s x" "seen s1 = seen s"
proof -
  from assms obtain c where c: "mem (ca s) cr = Some c" "c_learnt c"
    by (auto simp: claBumpActivity_def split: option.splits if_splits)
  let ?a1 = "ca_set cr (c\<lparr> c_activity := c_activity c + cla_inc s \<rparr>) (ca s)"
  have a1: "map_option c_lits (mem ?a1 x) = map_option c_lits (mem (ca s) x)"
    using c by (auto simp: ca_set_def)
  show "seen s1 = seen s"
    using assms c by (auto simp: claBumpActivity_def Let_def thn_Inr_iff split: if_splits)
  show "clause_at s1 x = clause_at s x"
  proof (cases "c_activity c + cla_inc s > double_1e20")
    case False
    with assms c have "ca s1 = ?a1"
      by (auto simp: claBumpActivity_def Let_def)
    with a1 show ?thesis
      by (cases "mem ?a1 x"; cases "mem (ca s) x") (auto simp: clause_at_def)
  next
    case True
    with assms c obtain a2 where r: "cla_rescale (learnts s) ?a1 = Inr a2" and e: "ca s1 = a2"
      by (auto simp: claBumpActivity_def Let_def thn_Inr_iff)
    from cla_rescale_lits [OF r, of x] a1 e
    have "map_option c_lits (mem (ca s1) x) = map_option c_lits (mem (ca s) x)"
      by simp
    then show ?thesis
      by (cases "mem (ca s1) x"; cases "mem (ca s) x") (auto simp: clause_at_def)
  qed
qed

lemma varBumpActivity_keeps:
  assumes "varBumpActivity v s = Inr s1"
  shows "trail s1 = trail s" "vardata s1 = vardata s" "trail_lim s1 = trail_lim s" "ca s1 = ca s"
    "seen s1 = seen s"
  using assms by (auto simp: varBumpActivity_def Let_def split: if_splits)


lemma index_unique:
  "distinct (map var xs) \<Longrightarrow> i < length xs \<Longrightarrow> j < length xs \<Longrightarrow> var (xs ! i) = var (xs ! j)
     \<Longrightarrow> i = j"
  by (metis distinct_conv_nth length_map nth_map)

lemma marked_set_finite: "finite {j. lo \<le> j \<and> j < (n :: nat) \<and> P j}"
  by (rule finite_subset [of _ "{..<n}"]) auto

lemma analyze_lits_effect:
  assumes d: "distinct (map var (trail s))"
    and lev: "\<forall>j < length (trail s). (decisionLevel s \<le> level s (var (trail s ! j))) = (lo \<le> j)"
  shows "analyze_lits E out nb s0 = Inr (out1, nb1, s1) \<Longrightarrow>
     trail s0 = trail s \<Longrightarrow> vardata s0 = vardata s \<Longrightarrow> trail_lim s0 = trail_lim s \<Longrightarrow>
     \<forall>q \<in> set E. \<exists>j < length (trail s). trail s ! j = neg q \<Longrightarrow> out \<noteq> [] \<Longrightarrow>
     trail s1 = trail s \<and> vardata s1 = vardata s \<and> trail_lim s1 = trail_lim s \<and> ca s1 = ca s0 \<and>
     length (seen s1) = length (seen s0) \<and>
     (\<forall>j < length (trail s). seen_at s1 j \<longleftrightarrow>
         seen_at s0 j \<or> (neg (trail s ! j) \<in> set E \<and> 0 < level s (var (trail s ! j)))) \<and>
     nb1 - int (card {j. lo \<le> j \<and> j < length (trail s) \<and> seen_at s1 j})
       = nb - int (card {j. lo \<le> j \<and> j < length (trail s) \<and> seen_at s0 j}) \<and>
     out1 \<noteq> [] \<and>
     (\<forall>q \<in> set (tl out1). q \<in> set (tl out) \<or>
         (q \<in> set E \<and> 0 < level s (var q) \<and> \<not> decisionLevel s \<le> level s (var q)))"
proof (induction E arbitrary: out nb s0)
  case Nil
  then show ?case by simp
next
  case (Cons q qs)
  note fr = Cons.prems(2,3,4)
  from Cons.prems(5) obtain jq where jq: "jq < length (trail s)" "trail s ! jq = neg q"
    by auto
  have vq: "var (trail s ! jq) = var q"
    by (simp add: jq)
  have same: "j = jq" if "j < length (trail s)" "var (trail s ! j) = var q" for j
    using index_unique [OF d that(1) jq(1)] that(2) vq by simp
  have lv0: "level s0 = level s" "decisionLevel s0 = decisionLevel s"
    using fr by (simp_all add: level_def decisionLevel_def fun_eq_iff)
  from Cons.prems(1) have vs: "var q < length (seen s0)"
    by (auto split: if_splits)
  have qs: "\<forall>q \<in> set qs. \<exists>j < length (trail s). trail s ! j = neg q"
    using Cons.prems(5) by simp
  show ?case
  proof (cases "seen s0 ! var q \<or> \<not> level s (var q) > 0")
    case True
    with Cons.prems(1) vs lv0 have r: "analyze_lits qs out nb s0 = Inr (out1, nb1, s1)"
      by (auto split: if_splits)
    note ih = Cons.IH [OF r fr qs Cons.prems(6)]
    have "seen_at s0 j \<or> (neg (trail s ! j) \<in> set (q # qs) \<and> 0 < level s (var (trail s ! j)))
        \<longleftrightarrow> seen_at s0 j \<or> (neg (trail s ! j) \<in> set qs \<and> 0 < level s (var (trail s ! j)))"
      if j: "j < length (trail s)" for j
    proof (cases "neg (trail s ! j) = q")
      case False
      then show ?thesis by auto
    next
      case e: True
      then have "var (trail s ! j) = var q"
        by (metis var_neg)
      with True fr show ?thesis
        by (auto simp: seen_at_def)
    qed
    with ih show ?thesis
      by auto
  next
    case False
    then have ns: "\<not> seen s0 ! var q" and lp: "0 < level s (var q)"
      by simp_all
    from Cons.prems(1) vs ns lp lv0 obtain sa where b: "varBumpActivity (var q) s0 = Inr sa"
      by (cases "varBumpActivity (var q) s0") (auto split: if_splits)
    note k = varBumpActivity_keeps [OF b]
    let ?s2 = "sa\<lparr> seen := (seen sa)[var q := True] \<rparr>"
    have fr2: "trail ?s2 = trail s" "vardata ?s2 = vardata s" "trail_lim ?s2 = trail_lim s"
      using k fr by simp_all
    have lv2: "level ?s2 = level s" "decisionLevel ?s2 = decisionLevel s"
      using fr2 by (simp_all add: level_def decisionLevel_def fun_eq_iff)
    have m2: "seen_at ?s2 j \<longleftrightarrow> seen_at s0 j \<or> j = jq" if j: "j < length (trail s)" for j
    proof (cases "var (trail s ! j) = var q")
      case True
      with same [OF j] vs k fr show ?thesis
        by (simp add: seen_at_def)
    next
      case False
      with jq have "j \<noteq> jq" by auto
      with False k fr show ?thesis
        by (simp add: seen_at_def)
    qed
    have nm: "\<not> seen_at s0 jq"
      using ns fr vq by (simp add: seen_at_def)
    let ?M0 = "{j. lo \<le> j \<and> j < length (trail s) \<and> seen_at s0 j}"
    let ?M2 = "{j. lo \<le> j \<and> j < length (trail s) \<and> seen_at ?s2 j}"
    have lq: "(decisionLevel s \<le> level s (var q)) = (lo \<le> jq)"
      using lev jq(1) vq by auto
    have m2eq: "?M2 = (if lo \<le> jq then insert jq ?M0 else ?M0)"
      using m2 jq(1) by auto
    have c2: "int (card ?M2) = int (card ?M0) + (if lo \<le> jq then 1 else 0)"
    proof (cases "lo \<le> jq")
      case True
      have "jq \<notin> ?M0" using nm by simp
      then have "card (insert jq ?M0) = Suc (card ?M0)"
        by (intro card_insert_disjoint marked_set_finite)
      with True m2eq show ?thesis by simp
    next
      case False
      with m2eq show ?thesis by simp
    qed
    show ?thesis
    proof (cases "decisionLevel s \<le> level s (var q)")
      case True
      with Cons.prems(1) vs ns lp lv0 b lv2 k have
        r: "analyze_lits qs out (nb + 1) ?s2 = Inr (out1, nb1, s1)"
        by (auto simp: Let_def split: if_splits)
      note ih = Cons.IH [OF r fr2 qs Cons.prems(6)]
      from ih have sn: "\<forall>j < length (trail s). seen_at s1 j \<longleftrightarrow>
          seen_at ?s2 j \<or> (neg (trail s ! j) \<in> set qs \<and> 0 < level s (var (trail s ! j)))"
        by blast
      have a: "\<forall>j < length (trail s). seen_at s1 j \<longleftrightarrow>
         seen_at s0 j \<or> (neg (trail s ! j) \<in> set (q # qs) \<and> 0 < level s (var (trail s ! j)))"
      proof (intro allI impI)
        fix j assume j: "j < length (trail s)"
        have "j = jq \<longleftrightarrow> neg (trail s ! j) = q"
        proof
          assume "j = jq"
          with jq show "neg (trail s ! j) = q" by simp
        next
          assume "neg (trail s ! j) = q"
          then have "var (trail s ! j) = var q" by (metis var_neg)
          from same [OF j this] show "j = jq" .
        qed
        moreover have "neg (trail s ! j) = q \<Longrightarrow> 0 < level s (var (trail s ! j))"
          using lp by (metis var_neg)
        ultimately show "seen_at s1 j \<longleftrightarrow>
          seen_at s0 j \<or> (neg (trail s ! j) \<in> set (q # qs) \<and> 0 < level s (var (trail s ! j)))"
          using sn m2 [OF j] j by auto
      qed
      from ih c2 True lq have b': "nb1 - int (card {j. lo \<le> j \<and> j < length (trail s) \<and> seen_at s1 j})
          = nb - int (card ?M0)"
        by simp
      from ih a b' k show ?thesis
        by auto
    next
      case False
      with Cons.prems(1) vs ns lp lv0 b lv2 k have
        r: "analyze_lits qs (out @ [q]) nb ?s2 = Inr (out1, nb1, s1)"
        by (auto simp: Let_def split: if_splits)
      have o: "out @ [q] \<noteq> []" by simp
      note ih = Cons.IH [OF r fr2 qs o]
      from ih have sn: "\<forall>j < length (trail s). seen_at s1 j \<longleftrightarrow>
          seen_at ?s2 j \<or> (neg (trail s ! j) \<in> set qs \<and> 0 < level s (var (trail s ! j)))"
        by blast
      have a: "\<forall>j < length (trail s). seen_at s1 j \<longleftrightarrow>
         seen_at s0 j \<or> (neg (trail s ! j) \<in> set (q # qs) \<and> 0 < level s (var (trail s ! j)))"
      proof (intro allI impI)
        fix j assume j: "j < length (trail s)"
        have "j = jq \<longleftrightarrow> neg (trail s ! j) = q"
        proof
          assume "j = jq"
          with jq show "neg (trail s ! j) = q" by simp
        next
          assume "neg (trail s ! j) = q"
          then have "var (trail s ! j) = var q" by (metis var_neg)
          from same [OF j this] show "j = jq" .
        qed
        moreover have "neg (trail s ! j) = q \<Longrightarrow> 0 < level s (var (trail s ! j))"
          using lp by (metis var_neg)
        ultimately show "seen_at s1 j \<longleftrightarrow>
          seen_at s0 j \<or> (neg (trail s ! j) \<in> set (q # qs) \<and> 0 < level s (var (trail s ! j)))"
          using sn m2 [OF j] j by auto
      qed
      from ih c2 False lq have b': "nb1 - int (card {j. lo \<le> j \<and> j < length (trail s) \<and> seen_at s1 j})
          = nb - int (card ?M0)"
        by simp
      have tl: "tl (out @ [q]) = tl out @ [q]"
        using Cons.prems(6) by (cases out) auto
      from ih have "\<forall>x \<in> set (tl out1). x \<in> set (tl (out @ [q])) \<or>
         (x \<in> set qs \<and> 0 < level s (var x) \<and> \<not> decisionLevel s \<le> level s (var x))"
        by blast
      with tl lp False have c: "\<forall>x \<in> set (tl out1). x \<in> set (tl out) \<or>
         (x \<in> set (q # qs) \<and> 0 < level s (var x) \<and> \<not> decisionLevel s \<le> level s (var x))"
        by auto
      from ih a b' c k show ?thesis
        by auto
    qed
  qed
qed


lemma filter_all_iff: "length (filter P xs) = length xs \<longleftrightarrow> (\<forall>x \<in> set xs. P x)"
proof (induction xs)
  case Nil
  then show ?case by simp
next
  case (Cons x xs)
  have le: "length (filter P xs) \<le> length xs"
    by (rule length_filter_le)
  show ?case
  proof (cases "P x")
    case True
    with Cons show ?thesis by simp
  next
    case False
    from le have "length (filter P xs) \<noteq> Suc (length xs)"
      by linarith
    with False have "length (filter P (x # xs)) \<noteq> length (x # xs)"
      by simp
    with False le show ?thesis by auto
  qed
qed

lemma pre_facts:
  assumes "analyze_pre confl s"
  shows "0 < decisionLevel s" "last_decision s < length (trail s)" "distinct (map var (trail s))"
    "\<forall>j < length (trail s). (decisionLevel s \<le> level s (var (trail s ! j))) = (last_decision s \<le> j)"
    "\<forall>k. last_decision s < k \<and> k \<le> length (trail s) \<longrightarrow>
       (\<forall>q \<in> set (antecedents s confl k). \<exists>j < k. trail s ! j = neg q)"
    "\<forall>k. last_decision s < k \<and> k \<le> length (trail s) \<longrightarrow>
       (\<exists>j < k. last_decision s \<le> j \<and> edge s confl j k)"
    "\<forall>j < length (trail s). \<not> seen_at s j"
proof -
  from assms have tl: "trail_lim s \<noteq> []" "sorted (trail_lim s)"
    and lv: "\<forall>j < length (trail s).
          level s (var (trail s ! j)) = length (filter (\<lambda>c. c \<le> j) (trail_lim s))"
    by (simp_all add: analyze_pre_def)
  show "0 < decisionLevel s"
    using tl by (simp add: decisionLevel_def)
  show "last_decision s < length (trail s)" "distinct (map var (trail s))"
    using assms by (simp_all add: analyze_pre_def)
  show "\<forall>j < length (trail s). (decisionLevel s \<le> level s (var (trail s ! j))) = (last_decision s \<le> j)"
  proof (intro allI impI)
    fix j assume j: "j < length (trail s)"
    have le: "length (filter (\<lambda>c. c \<le> j) (trail_lim s)) \<le> length (trail_lim s)"
      by (rule length_filter_le)
    have "(\<forall>c \<in> set (trail_lim s). c \<le> j) = (last (trail_lim s) \<le> j)"
    proof
      assume "\<forall>c \<in> set (trail_lim s). c \<le> j"
      with tl(1) show "last (trail_lim s) \<le> j"
        by simp
    next
      assume l: "last (trail_lim s) \<le> j"
      show "\<forall>c \<in> set (trail_lim s). c \<le> j"
      proof
        fix c assume "c \<in> set (trail_lim s)"
        then obtain i where i: "i < length (trail_lim s)" "trail_lim s ! i = c"
          by (auto simp: in_set_conv_nth)
        then have "trail_lim s ! i \<le> trail_lim s ! (length (trail_lim s) - 1)"
          using tl(2) by (intro sorted_nth_mono) auto
        with i l tl(1) show "c \<le> j"
          by (simp add: last_conv_nth)
      qed
    qed
    moreover have "(decisionLevel s \<le> level s (var (trail s ! j)))
        = (length (filter (\<lambda>c. c \<le> j) (trail_lim s)) = length (trail_lim s))"
    proof -
      have "level s (var (trail s ! j)) = length (filter (\<lambda>c. c \<le> j) (trail_lim s))"
        using lv j by simp
      with le show ?thesis
        unfolding decisionLevel_def by linarith
    qed
    ultimately show "(decisionLevel s \<le> level s (var (trail s ! j))) = (last_decision s \<le> j)"
      using filter_all_iff [of "\<lambda>c. c \<le> j" "trail_lim s"]
      by (simp add: last_decision_def)
  qed
  show "\<forall>k. last_decision s < k \<and> k \<le> length (trail s) \<longrightarrow>
       (\<forall>q \<in> set (antecedents s confl k). \<exists>j < k. trail s ! j = neg q)"
    "\<forall>k. last_decision s < k \<and> k \<le> length (trail s) \<longrightarrow>
       (\<exists>j < k. last_decision s \<le> j \<and> edge s confl j k)"
  proof -
    from assms have "\<forall>k \<in> set [last_decision s + 1 ..< length (trail s) + 1].
          (\<forall>q \<in> set (antecedents s confl k). \<exists>j \<in> set [0 ..< k]. trail s ! j = neg q) \<and>
          (\<exists>j \<in> set [last_decision s ..< k]. edge s confl j k)"
      unfolding analyze_pre_def by blast
    then have a: "\<forall>k \<in> set [last_decision s + 1 ..< length (trail s) + 1].
          (\<forall>q \<in> set (antecedents s confl k). \<exists>j < k. trail s ! j = neg q) \<and>
          (\<exists>j < k. last_decision s \<le> j \<and> edge s confl j k)"
      by (simp add: Bex_def Ball_def) blast
    show "\<forall>k. last_decision s < k \<and> k \<le> length (trail s) \<longrightarrow>
       (\<forall>q \<in> set (antecedents s confl k). \<exists>j < k. trail s ! j = neg q)"
    proof (intro allI impI)
      fix k assume "last_decision s < k \<and> k \<le> length (trail s)"
      then have "k \<in> set [last_decision s + 1 ..< length (trail s) + 1]"
        unfolding node_above by simp
      with a show "\<forall>q \<in> set (antecedents s confl k). \<exists>j < k. trail s ! j = neg q"
        by blast
    qed
    show "\<forall>k. last_decision s < k \<and> k \<le> length (trail s) \<longrightarrow>
       (\<exists>j < k. last_decision s \<le> j \<and> edge s confl j k)"
    proof (intro allI impI)
      fix k assume "last_decision s < k \<and> k \<le> length (trail s)"
      then have "k \<in> set [last_decision s + 1 ..< length (trail s) + 1]"
        unfolding node_above by simp
      with a show "\<exists>j < k. last_decision s \<le> j \<and> edge s confl j k"
        by blast
    qed
  qed
  show "\<forall>j < length (trail s). \<not> seen_at s j"
    using assms by (simp add: analyze_pre_def seen_at_def)
qed


lemma analyze_loop_uip:
  assumes pre: "analyze_pre confl0 s0"
  shows "analyze_loop confl p out nb n s = Inr (p1, out1, s1) \<Longrightarrow>
     analyze_inv s0 confl0 confl p out nb n s \<Longrightarrow>
     \<exists>u. p1 = trail s0 ! u \<and> first_uip s0 confl0 u \<and> out1 \<noteq> [] \<and>
        (\<forall>q \<in> set (tl out1). \<exists>j < last_decision s0. trail s0 ! j = neg q \<and> 0 < level s0 (var q))"
proof (induction confl p out nb n s "(p1, out1, s1)" rule: analyze_loop_induct_Inr)
  case (turn confl p out nb n s cr c sa outa nba sb i)
  let ?n0 = "length (trail s0)"
  let ?lo = "last_decision s0"
  note pf = pre_facts [OF pre]
  from turn.prems have fr: "trail s = trail s0" "vardata s = vardata s0" "trail_lim s = trail_lim s0"
    and cl: "\<And>x. clause_at s x = clause_at s0 x"
    and nn: "?lo < n" "n \<le> ?n0"
    and cur: "if n = ?n0 then p = None \<and> confl = Some confl0
       else p = Some (trail s0 ! n) \<and> confl = reason s0 (var (trail s0 ! n))"
    and rn: "reaches s0 confl0 None n"
    and mk: "\<And>j. ?lo \<le> j \<Longrightarrow> j < n \<Longrightarrow>
         (seen_at s j \<longleftrightarrow> (\<exists>k. n < k \<and> k \<le> ?n0 \<and> edge s0 confl0 j k \<and> reaches s0 confl0 None k))"
    and um: "\<And>j. n \<le> j \<Longrightarrow> j < ?n0 \<Longrightarrow> \<not> seen_at s j"
    and cnt: "nb = int (card {j. ?lo \<le> j \<and> j < ?n0 \<and> seen_at s j})"
    and nu: "\<And>v. n \<le> v \<Longrightarrow> v < ?n0 \<Longrightarrow> \<not> uip s0 confl0 v"
    and ot: "out \<noteq> []"
      "\<forall>q \<in> set (tl out). \<exists>j < ?lo. trail s0 ! j = neg q \<and> 0 < level s0 (var q)"
    unfolding analyze_inv_def by blast+
  \<comment> \<open>the literals that this turn reads are the antecedents of the node \<open>n\<close>\<close>
  have ca_c: "clause_at s cr = c_lits c"
    using turn(2) by (simp add: clause_at_def)
  have E: "drop (if p = None then 0 else 1) (c_lits c) = antecedents s0 confl0 n"
  proof (cases "n = ?n0")
    case True
    with cur turn(1) have "p = None" "cr = confl0" by simp_all
    with True ca_c cl [of cr] show ?thesis
      by (simp add: antecedents_def)
  next
    case False
    with cur turn(1) have "p = Some (trail s0 ! n)" "reason s0 (var (trail s0 ! n)) = Some cr"
      by simp_all
    with False ca_c cl [of cr] show ?thesis
      by (simp add: antecedents_def drop_Suc)
  qed
  \<comment> \<open>the bump of the clause\<close>
  have sa: "trail sa = trail s0" "vardata sa = vardata s0" "trail_lim sa = trail_lim s0"
    "seen sa = seen s" "\<And>x. clause_at sa x = clause_at s0 x"
  proof -
    let ?s = "s\<lparr> nb_resolutions := nb_resolutions s + 1 \<rparr>"
    have f: "fr_analyze sa = fr_analyze s"
      using turn(3) by (auto split: if_splits dest: claBumpActivity_frame)
    from fr_analyze_keeps(1,2,4) [OF f] fr
    show "trail sa = trail s0" "vardata sa = vardata s0" "trail_lim sa = trail_lim s0"
      by simp_all
    show "seen sa = seen s"
      using turn(3) claBumpActivity_lits(2) [of cr ?s sa] by (auto split: if_splits)
    fix x
    have "clause_at sa x = clause_at ?s x"
      using turn(3) claBumpActivity_lits(1) [of cr ?s sa x] by (auto split: if_splits)
    also have "\<dots> = clause_at s x"
      by (simp add: clause_at_def)
    finally show "clause_at sa x = clause_at s0 x"
      using cl by simp
  qed
  have sat: "seen_at sa j = seen_at s j" for j
    using sa fr by (simp add: seen_at_def)
  \<comment> \<open>the marking of the antecedents\<close>
  have fal: "\<forall>q \<in> set (antecedents s0 confl0 n). \<exists>j < ?n0. trail s0 ! j = neg q"
  proof
    fix q assume "q \<in> set (antecedents s0 confl0 n)"
    with pf(5) nn obtain j where "j < n" "trail s0 ! j = neg q"
      by blast
    with nn(2) show "\<exists>j < ?n0. trail s0 ! j = neg q"
      by (intro exI [of _ j]) simp
  qed
  note ef = analyze_lits_effect [OF pf(3,4) turn(4) [unfolded E] sa(1,2,3) fal ot(1)]
  from ef have sb: "trail sb = trail s0" "vardata sb = vardata s0" "trail_lim sb = trail_lim s0"
    "ca sb = ca sa"
    and sn: "\<And>j. j < ?n0 \<Longrightarrow> seen_at sb j \<longleftrightarrow>
         seen_at s j \<or> (neg (trail s0 ! j) \<in> set (antecedents s0 confl0 n) \<and>
            0 < level s0 (var (trail s0 ! j)))"
    and cn: "nba - int (card {j. ?lo \<le> j \<and> j < ?n0 \<and> seen_at sb j})
       = nb - int (card {j. ?lo \<le> j \<and> j < ?n0 \<and> seen_at sa j})"
    and oa: "outa \<noteq> []"
      "\<forall>q \<in> set (tl outa). q \<in> set (tl out) \<or>
         (q \<in> set (antecedents s0 confl0 n) \<and> 0 < level s0 (var q) \<and>
          \<not> decisionLevel s0 \<le> level s0 (var q))"
    by (simp_all add: sat)
  have nba: "nba = int (card {j. ?lo \<le> j \<and> j < ?n0 \<and> seen_at sb j})"
    using cn cnt by (simp add: sat)
  have lpos: "0 < level s0 (var (trail s0 ! j))" if "?lo \<le> j" "j < ?n0" for j
  proof -
    from pf(4) that have "decisionLevel s0 \<le> level s0 (var (trail s0 ! j))"
      by simp
    with pf(1) show ?thesis by linarith
  qed
  have ante: "neg (trail s0 ! j) \<in> set (antecedents s0 confl0 n) \<longleftrightarrow> edge s0 confl0 j n"
    if j: "j < ?n0" for j
  proof
    assume a: "neg (trail s0 ! j) \<in> set (antecedents s0 confl0 n)"
    with pf(5) nn obtain j' where j': "j' < n" "trail s0 ! j' = neg (neg (trail s0 ! j))"
      by blast
    then have "var (trail s0 ! j') = var (trail s0 ! j)"
      by simp
    from index_unique [OF pf(3) _ j this] j'(1) nn(2) have "j' = j"
      by simp
    with j'(1) a nn(2) show "edge s0 confl0 j n"
      by (simp add: edge_def)
  next
    assume "edge s0 confl0 j n"
    then show "neg (trail s0 ! j) \<in> set (antecedents s0 confl0 n)"
      by (simp add: edge_def)
  qed
  have post: "seen_at sb j \<longleftrightarrow>
      (\<exists>k. n \<le> k \<and> k \<le> ?n0 \<and> edge s0 confl0 j k \<and> reaches s0 confl0 None k)"
    if j: "?lo \<le> j" "j < n" for j
  proof -
    from j nn have jl: "j < ?n0" by simp
    have "seen_at sb j \<longleftrightarrow> seen_at s j \<or> edge s0 confl0 j n"
      using sn [OF jl] ante [OF jl] lpos [OF j(1) jl] by simp
    also have "\<dots> \<longleftrightarrow> (\<exists>k. n < k \<and> k \<le> ?n0 \<and> edge s0 confl0 j k \<and> reaches s0 confl0 None k)
        \<or> edge s0 confl0 j n"
      using mk [OF j] by simp
    also have "\<dots> \<longleftrightarrow> (\<exists>k. n \<le> k \<and> k \<le> ?n0 \<and> edge s0 confl0 j k \<and> reaches s0 confl0 None k)"
    proof
      assume "(\<exists>k. n < k \<and> k \<le> ?n0 \<and> edge s0 confl0 j k \<and> reaches s0 confl0 None k)
        \<or> edge s0 confl0 j n"
      then show "\<exists>k. n \<le> k \<and> k \<le> ?n0 \<and> edge s0 confl0 j k \<and> reaches s0 confl0 None k"
      proof
        assume "\<exists>k. n < k \<and> k \<le> ?n0 \<and> edge s0 confl0 j k \<and> reaches s0 confl0 None k"
        then obtain k where "n < k" "k \<le> ?n0" "edge s0 confl0 j k" "reaches s0 confl0 None k"
          by blast
        then show ?thesis
          by (intro exI [of _ k]) simp
      next
        assume "edge s0 confl0 j n"
        with rn nn(2) show ?thesis
          by (intro exI [of _ n]) simp
      qed
    next
      assume "\<exists>k. n \<le> k \<and> k \<le> ?n0 \<and> edge s0 confl0 j k \<and> reaches s0 confl0 None k"
      then obtain k where k: "n \<le> k" "k \<le> ?n0" "edge s0 confl0 j k" "reaches s0 confl0 None k"
        by blast
      show "(\<exists>k. n < k \<and> k \<le> ?n0 \<and> edge s0 confl0 j k \<and> reaches s0 confl0 None k)
        \<or> edge s0 confl0 j n"
      proof (cases "k = n")
        case True
        with k show ?thesis by simp
      next
        case False
        with k(1) have "n < k" by simp
        with k show ?thesis by blast
      qed
    qed
    finally show ?thesis .
  qed
  have above: "\<not> seen_at sb j" if j: "n \<le> j" "j < ?n0" for j
  proof -
    have "\<not> edge s0 confl0 j n"
      using j by (simp add: edge_def)
    with sn [OF j(2)] ante [OF j(2)] um [OF j] show ?thesis
      by simp
  qed
  \<comment> \<open>the scan\<close>
  from analyze_scan_max [OF turn(5)] sb(1)
  have i: "i < n" "i < ?n0" "var (trail s0 ! i) < length (seen sb)" "seen_at sb i"
    and gap: "\<And>j. i < j \<Longrightarrow> j < n \<Longrightarrow> \<not> seen_at sb j"
    by simp_all
  from pf(6) nn obtain j0 where j0: "j0 < n" "?lo \<le> j0" "edge s0 confl0 j0 n"
    by blast
  have "seen_at sb j0"
    using post [OF j0(2,1)] j0 rn nn(2) by blast
  then have "j0 \<le> i"
  proof (rule contrapos_pp)
    assume "\<not> j0 \<le> i"
    then have "i < j0" by simp
    from gap [OF this j0(1)] show "\<not> seen_at sb j0" .
  qed
  with j0(2) have ilo: "?lo \<le> i" by simp
  have ri: "reaches s0 confl0 None i"
  proof -
    from post [OF ilo i(1)] i(4) obtain k where
      k: "n \<le> k" "k \<le> ?n0" "edge s0 confl0 i k" "reaches s0 confl0 None k"
      by blast
    from k(1) i(1) have "i < k" by simp
    with k i(2) show ?thesis
      by (subst reaches_iff) blast
  qed
  have nr: "\<not> reaches s0 confl0 None k" if "i < k" "k < n" for k
    using that
  proof (induction "n - k" arbitrary: k rule: less_induct)
    case less
    show ?case
    proof
      assume "reaches s0 confl0 None k"
      with less.prems nn(2) obtain k' where k': "k < k'" "k' \<le> ?n0" "edge s0 confl0 k k'"
        "reaches s0 confl0 None k'"
        by (subst (asm) reaches_iff) auto
      show False
      proof (cases "k' < n")
        case True
        with k'(1) have "n - k' < n - k" by linarith
        moreover from k'(1) less.prems(1) have "i < k'" by simp
        ultimately have "\<not> reaches s0 confl0 None k'"
          using True by (rule less.hyps)
        with k'(4) show False by simp
      next
        case False
        then have "n \<le> k'" by simp
        moreover from less.prems(1) ilo have "?lo \<le> k" by simp
        ultimately have "seen_at sb k"
          using post [OF _ less.prems(2)] k' by blast
        with gap [OF less.prems] show False by simp
      qed
    qed
  qed
  \<comment> \<open>the mark of \<open>i\<close> is cleared\<close>
  let ?s' = "sb\<lparr> seen := (seen sb)[var (trail sb ! i) := False] \<rparr>"
  have s': "seen_at ?s' j \<longleftrightarrow> seen_at sb j \<and> j \<noteq> i" if j: "j < ?n0" for j
  proof (cases "j = i")
    case True
    with i(3) sb(1) show ?thesis
      by (simp add: seen_at_def)
  next
    case False
    with index_unique [OF pf(3) j i(2)] have "var (trail s0 ! j) \<noteq> var (trail s0 ! i)"
      by auto
    with False sb(1) show ?thesis
      by (simp add: seen_at_def)
  qed
  let ?Mb = "{j. ?lo \<le> j \<and> j < ?n0 \<and> seen_at sb j}"
  let ?M' = "{j. ?lo \<le> j \<and> j < ?n0 \<and> seen_at ?s' j}"
  have iM: "i \<in> ?Mb"
    using ilo i by simp
  have M': "?M' = ?Mb - {i}"
    using s' by auto
  have fM: "finite ?Mb"
    by (rule marked_set_finite)
  have cM: "int (card ?M') = nba - 1"
  proof -
    from card_Suc_Diff1 [OF fM iM] have "card ?Mb = Suc (card (?Mb - {i}))"
      by simp
    then show ?thesis
      by (simp add: M' nba)
  qed
  have Mn: "j < n" if "j \<in> ?Mb" for j
  proof (rule ccontr)
    assume "\<not> j < n"
    then have "n \<le> j" by simp
    from above [OF this] that show False by simp
  qed
  have Mi: "j \<le> i" if "j \<in> ?Mb" for j
  proof (rule ccontr)
    assume "\<not> j \<le> i"
    then have "i < j" by simp
    from gap [OF this Mn [OF that]] that show False by simp
  qed
  have outs: "\<forall>q \<in> set (tl outa). \<exists>j < ?lo. trail s0 ! j = neg q \<and> 0 < level s0 (var q)"
  proof
    fix q assume "q \<in> set (tl outa)"
    with oa(2) consider "q \<in> set (tl out)"
      | "q \<in> set (antecedents s0 confl0 n)" "0 < level s0 (var q)"
        "\<not> decisionLevel s0 \<le> level s0 (var q)"
      by auto
    then show "\<exists>j < ?lo. trail s0 ! j = neg q \<and> 0 < level s0 (var q)"
    proof cases
      case 1
      with ot(2) show ?thesis by blast
    next
      case 2
      with fal obtain j where j: "j < ?n0" "trail s0 ! j = neg q"
        by blast
      then have "var (trail s0 ! j) = var q" by simp
      with pf(4) j(1) 2(3) have "\<not> ?lo \<le> j"
        by auto
      with j 2(2) show ?thesis
        by (intro exI [of _ j]) simp
    qed
  qed
  show ?case
  proof (cases "nba - 1 > 0")
    case True
    with turn(7) have
      ih: "analyze_inv s0 confl0 (reason sb (var (trail sb ! i))) (Some (trail sb ! i)) outa (nba - 1) i ?s'
        \<Longrightarrow> \<exists>u. p1 = trail s0 ! u \<and> first_uip s0 confl0 u \<and> out1 \<noteq> [] \<and>
           (\<forall>q \<in> set (tl out1). \<exists>j < ?lo. trail s0 ! j = neg q \<and> 0 < level s0 (var q))"
      by simp
    from True cM have "card ?M' \<noteq> 0"
      by linarith
    then have "?M' \<noteq> {}"
      by (metis card.empty)
    then obtain v where v: "v \<in> ?M'"
      by blast
    with M' have vb: "v \<in> ?Mb" "v \<noteq> i" by auto
    from Mi [OF vb(1)] vb(2) have vi: "v < i" by simp
    from vb(1) have vlo: "?lo \<le> v" "seen_at sb v" by simp_all
    from vlo vi have loi: "?lo < i" by simp
    \<comment> \<open>\<open>i\<close> is not a unique implication point: \<open>v\<close> reaches the conflict around it\<close>
    have nui: "\<not> uip s0 confl0 i"
    proof -
      from vi i(1) have "v < n" by simp
      from post [OF vlo(1) this] vlo(2) obtain k where
        k: "n \<le> k" "k \<le> ?n0" "edge s0 confl0 v k" "reaches s0 confl0 None k"
        by blast
      from reaches_above [OF k(4)] i(1) k(1) have "reaches s0 confl0 (Some i) k"
        by simp
      with k vi i(2) have "reaches s0 confl0 (Some i) v"
        by (subst reaches_iff) (auto simp: edge_def)
      from reaches_from_decision [OF pf(6) this vlo(1)] vi
      have "reaches s0 confl0 (Some i) ?lo"
        by simp
      with loi show ?thesis
        by (simp add: uip_def)
    qed
    have "analyze_inv s0 confl0 (reason sb (var (trail sb ! i))) (Some (trail sb ! i)) outa (nba - 1) i ?s'"
      unfolding analyze_inv_def
    proof (intro conjI allI impI ballI)
      show "trail ?s' = trail s0" "vardata ?s' = vardata s0" "trail_lim ?s' = trail_lim s0"
        using sb by simp_all
      show "clause_at ?s' x = clause_at s0 x" for x
        using sa(5) [of x] sb(4) by (simp add: clause_at_def)
      show "?lo < i" by (rule loi)
      show "i \<le> ?n0" using i(2) by simp
      show "if i = ?n0 then Some (trail sb ! i) = None \<and> reason sb (var (trail sb ! i)) = Some confl0
        else Some (trail sb ! i) = Some (trail s0 ! i) \<and>
          reason sb (var (trail sb ! i)) = reason s0 (var (trail s0 ! i))"
        using i(2) sb by (simp add: reason_def)
      show "reaches s0 confl0 None i" by (rule ri)
      show "seen_at ?s' j \<longleftrightarrow>
          (\<exists>k. i < k \<and> k \<le> ?n0 \<and> edge s0 confl0 j k \<and> reaches s0 confl0 None k)"
        if "?lo \<le> j \<and> j < i" for j
      proof -
        from that i have j: "?lo \<le> j" "j < n" "j < ?n0" "j \<noteq> i" by simp_all
        have "seen_at ?s' j \<longleftrightarrow> seen_at sb j"
          using s' [OF j(3)] j(4) by simp
        also have "\<dots> \<longleftrightarrow> (\<exists>k. n \<le> k \<and> k \<le> ?n0 \<and> edge s0 confl0 j k \<and> reaches s0 confl0 None k)"
          by (rule post [OF j(1,2)])
        also have "\<dots> \<longleftrightarrow> (\<exists>k. i < k \<and> k \<le> ?n0 \<and> edge s0 confl0 j k \<and> reaches s0 confl0 None k)"
        proof
          assume "\<exists>k. n \<le> k \<and> k \<le> ?n0 \<and> edge s0 confl0 j k \<and> reaches s0 confl0 None k"
          then obtain k where "n \<le> k" "k \<le> ?n0" "edge s0 confl0 j k" "reaches s0 confl0 None k"
            by blast
          with i(1) show "\<exists>k. i < k \<and> k \<le> ?n0 \<and> edge s0 confl0 j k \<and> reaches s0 confl0 None k"
            by (intro exI [of _ k]) simp
        next
          assume "\<exists>k. i < k \<and> k \<le> ?n0 \<and> edge s0 confl0 j k \<and> reaches s0 confl0 None k"
          then obtain k where k: "i < k" "k \<le> ?n0" "edge s0 confl0 j k" "reaches s0 confl0 None k"
            by blast
          have "n \<le> k"
          proof (rule ccontr)
            assume "\<not> n \<le> k"
            then have "k < n" by simp
            from nr [OF k(1) this] k(4) show False by simp
          qed
          with k show "\<exists>k. n \<le> k \<and> k \<le> ?n0 \<and> edge s0 confl0 j k \<and> reaches s0 confl0 None k"
            by blast
        qed
        finally show ?thesis .
      qed
      show "\<not> seen_at ?s' j" if "i \<le> j \<and> j < ?n0" for j
      proof (cases "j = i")
        case True
        with s' [of j] that show ?thesis by simp
      next
        case False
        with that have ij: "i < j" by simp
        have "\<not> seen_at sb j"
        proof (cases "j < n")
          case True
          from gap [OF ij True] show ?thesis .
        next
          case False
          then have "n \<le> j" by simp
          from above [OF this] that show ?thesis by simp
        qed
        with s' [of j] that show ?thesis
          by simp
      qed
      show "nba - 1 = int (card ?M')"
        using cM by simp
      show "\<not> uip s0 confl0 v" if "i \<le> v \<and> v < ?n0" for v
      proof (cases "v = i")
        case True
        with nui show ?thesis by simp
      next
        case False
        with that have iv: "i < v" by simp
        show ?thesis
        proof (cases "v < n")
          case True
          from nr [OF iv True] uip_reaches show ?thesis
            by blast
        next
          case False
          with nu [of v] that show ?thesis
            by simp
        qed
      qed
      show "outa \<noteq> []" by (rule oa(1))
      show "\<exists>j < ?lo. trail s0 ! j = neg q \<and> 0 < level s0 (var q)" if "q \<in> set (tl outa)" for q
        using outs that by blast
    qed
    from ih [OF this] show ?thesis .
  next
    case False
    with turn(7) sb(1) have r: "p1 = trail s0 ! i" "out1 = outa"
      by simp_all
    from False cM have "card ?M' = 0"
      by linarith
    with M' fM have "?Mb - {i} = {}"
      by simp
    with iM have Mb: "?Mb = {i}"
      by blast
    have only: "j = i" if "?lo \<le> j" "j < ?n0" "seen_at sb j" for j
      using that Mb by blast
    have r_lo: "reaches s0 confl0 None ?lo"
      using reaches_from_decision [OF pf(6) ri ilo] by simp
    have av: "\<not> reaches s0 confl0 (Some i) j" if "?lo \<le> j" "j < i" for j
      using that
    proof (induction "i - j" arbitrary: j rule: less_induct)
      case less
      show ?case
      proof
        assume "reaches s0 confl0 (Some i) j"
        with less.prems i(2) obtain k where k: "j < k" "k \<le> ?n0" "edge s0 confl0 j k"
          "reaches s0 confl0 (Some i) k"
          by (subst (asm) reaches_iff) auto
        consider "k < i" | "k = i" | "i < k" "k < n" | "n \<le> k"
          by linarith
        then show False
        proof cases
          case 1
          with k(1) have "i - k < i - j" by linarith
          moreover from k(1) less.prems(1) have "?lo \<le> k" by simp
          ultimately have "\<not> reaches s0 confl0 (Some i) k"
            using 1 by (rule less.hyps)
          with k(4) show False by simp
        next
          case 2
          with k(4) i(2) show False
            by (subst (asm) reaches_iff) simp
        next
          case 3
          with nr [of k] reaches_None [OF k(4)] show False
            by simp
        next
          case 4
          from less.prems i(1) have "j < n" by simp
          from post [OF less.prems(1) this] 4 k reaches_None [OF k(4)] have "seen_at sb j"
            by blast
          from only [OF less.prems(1) _ this] less.prems(2) i(2) show False
            by simp
        qed
      qed
    qed
    have u: "uip s0 confl0 i"
      unfolding uip_def using ilo i(2) r_lo av [of ?lo] by (cases "i = ?lo") auto
    have f: "v \<le> i" if "v < ?n0" "uip s0 confl0 v" for v
    proof (rule ccontr)
      assume "\<not> v \<le> i"
      then have iv: "i < v" by simp
      show False
      proof (cases "v < n")
        case True
        from nr [OF iv True] uip_reaches [OF that(2)] show False ..
      next
        case False
        with nu [of v] that show False by simp
      qed
    qed
    from u f have "first_uip s0 confl0 i"
      by (simp add: first_uip_def)
    with r oa(1) outs show ?thesis
      by blast
  qed
qed


lemma analyze_inv_start:
  assumes pre: "analyze_pre confl s"
  shows "analyze_inv s confl (Some confl) None [0] 0 (length (trail s)) s"
proof -
  note pf = pre_facts [OF pre]
  have "{j. last_decision s \<le> j \<and> j < length (trail s) \<and> seen_at s j} = {}"
    using pf(7) by auto
  then have "(0 :: int) = int (card {j. last_decision s \<le> j \<and> j < length (trail s) \<and> seen_at s j})"
    by simp
  with pf(2,7) show ?thesis
    unfolding analyze_inv_def by auto
qed

lemma cut_above:
  assumes "sorted xs" "b < length xs" "xs ! b \<le> (j :: nat)"
  shows "b < length (filter (\<lambda>c. c \<le> j) xs)"
proof -
  have "\<forall>c \<in> set (take (Suc b) xs). c \<le> j"
  proof
    fix c assume "c \<in> set (take (Suc b) xs)"
    then obtain i where i: "i < Suc b" "i < length xs" "xs ! i = c"
      by (auto simp: in_set_conv_nth)
    then have "xs ! i \<le> xs ! b"
      using assms(1,2) by (intro sorted_nth_mono) auto
    with i assms(3) show "c \<le> j" by simp
  qed
  then have "filter (\<lambda>c. c \<le> j) (take (Suc b) xs) = take (Suc b) xs"
    by simp
  moreover have "filter (\<lambda>c. c \<le> j) xs
      = filter (\<lambda>c. c \<le> j) (take (Suc b) xs) @ filter (\<lambda>c. c \<le> j) (drop (Suc b) xs)"
    by (metis append_take_drop_id filter_append)
  ultimately have "length (filter (\<lambda>c. c \<le> j) xs) \<ge> length (take (Suc b) xs)"
    by simp
  with assms(2) show ?thesis by simp
qed


lemma learnt_of_Inr:
  "learnt_of r = Inr (out, bt, lbd) \<longleftrightarrow> (\<exists>s. r = Inr (out, bt, lbd, s))"
  by (cases r) (auto simp: learnt_of_def)

lemma uip_run_check: "uip_check uip_run 2 = Inr (True, True, [9, 1, 2, 4, 6], [0, 1])"
  by code_simp

lemma uip_run_analyze:
  "(case uip_run of Inr (Some cr, s) \<Rightarrow> learnt_of (analyze cr s) | _ \<Rightarrow> Inl OutOfFuel)
     = Inr ([3, 8], 1, 2)"
  by code_simp



subsection \<open>reduceDB\<close>

lemma fr_reduce_upd [simp]:
  "fr_reduce (s\<lparr> nb_lits_in_learnts := a \<rparr>) = fr_reduce s"
  "fr_reduce (s\<lparr> vardata := b \<rparr>) = fr_reduce s"
  "fr_reduce (s\<lparr> ca := c \<rparr>) = fr_reduce s"
  "fr_reduce (s\<lparr> nb_removed_clauses := d \<rparr>) = fr_reduce s"
  "fr_reduce (s\<lparr> nb_reducedb := e \<rparr>) = fr_reduce s"
  "fr_reduce (s\<lparr> learnts := f \<rparr>) = fr_reduce s"
  "fr_reduce (s\<lparr> watches := g \<rparr>) = fr_reduce s"
  "fr_reduce (s\<lparr> clauses := h \<rparr>) = fr_reduce s"
  by (simp_all add: fr_reduce_def)

lemma fr_reduce_keeps:
  assumes "fr_reduce s1 = fr_reduce s"
  shows "trail s1 = trail s" "assigns s1 = assigns s"
    "trail_lim s1 = trail_lim s" "qhead s1 = qhead s" "conflicts s1 = conflicts s"
    "lbdQueue s1 = lbdQueue s" "conflict_budget s1 = conflict_budget s"
    "order_heap s1 = order_heap s" "polarity s1 = polarity s" "ok s1 = ok s"
    "trail_cap s1 = trail_cap s" "model s1 = model s" "garbage_frac s1 = garbage_frac s"
    "activity s1 = activity s"
proof -
  have "f (fr_reduce s1) = f (fr_reduce s)" for f :: "Solver \<Rightarrow> 'a"
    using assms by simp
  from this [of trail] this [of assigns] this [of trail_lim] this [of qhead]
    this [of conflicts] this [of lbdQueue]
    this [of conflict_budget] this [of order_heap] this [of polarity] this [of ok]
    this [of trail_cap] this [of model] this [of garbage_frac] this [of activity]
  show "trail s1 = trail s" "assigns s1 = assigns s"
    "trail_lim s1 = trail_lim s" "qhead s1 = qhead s" "conflicts s1 = conflicts s"
    "lbdQueue s1 = lbdQueue s" "conflict_budget s1 = conflict_budget s"
    "order_heap s1 = order_heap s" "polarity s1 = polarity s" "ok s1 = ok s"
    "trail_cap s1 = trail_cap s" "model s1 = model s" "garbage_frac s1 = garbage_frac s"
    "activity s1 = activity s"
    by (simp_all add: fr_reduce_def)
qed

lemma removeClause_unlocked:
  assumes "removeClause cr s = Inr s1" "mem (ca s) cr = Some c" "locked s cr c = Inr False"
  shows "assigns s1 = assigns s" "vardata s1 = vardata s"
    "mem (ca s1) = (mem (ca s))(cr \<mapsto> c\<lparr> c_mark := 1 \<rparr>)"
    "fr_reduce s1 = fr_reduce s"
proof -
  have l: "locked (s\<lparr> nb_lits_in_learnts := x \<rparr>) cr c = locked s cr c" for x
    by (simp add: locked_def valueL_def reason_def split: list.splits)
  from assms l show "assigns s1 = assigns s" "vardata s1 = vardata s"
    "mem (ca s1) = (mem (ca s))(cr \<mapsto> c\<lparr> c_mark := 1 \<rparr>)"
    "fr_reduce s1 = fr_reduce s"
    by (auto simp: removeClause_def detachClause_def thn_Inr_iff ca_free_def ca_set_def
        clause_units_def split: if_splits)
qed

lemma locked_cong:
  "assigns s1 = assigns s \<Longrightarrow> vardata s1 = vardata s \<Longrightarrow> c_lits c1 = c_lits c \<Longrightarrow>
     locked s1 cr c1 = locked s cr c"
  by (simp add: locked_def valueL_def reason_def split: list.splits)

lemma reduce_loop_effect:
  assumes "reduce_loop crs i n kept s0 = Inr (kept1, s1)"
    "assigns s0 = assigns s" "vardata s0 = vardata s"
    "\<forall>cr. map_option c_lits (mem (ca s0) cr) = map_option c_lits (mem (ca s) cr)"
  shows "kept1 = kept @ map snd (filter (\<lambda>(j, cr). \<not> reduce_drop s n j cr) (enumerate i crs)) \<and>
     (\<forall>(j, cr) \<in> set (enumerate i crs). reduce_drop s n j cr \<longrightarrow> marked s1 cr) \<and>
     (\<forall>cr. marked s0 cr \<longrightarrow> marked s1 cr) \<and>
     (\<forall>cr. (\<forall>(j, cr') \<in> set (enumerate i crs). cr' = cr \<longrightarrow> \<not> reduce_drop s n j cr)
        \<longrightarrow> mem (ca s1) cr = mem (ca s0) cr) \<and>
     fr_reduce s1 = fr_reduce s0"
  using assms
proof (induction crs arbitrary: i kept s0)
  case Nil
  then show ?case by simp
next
  case (Cons cr crs)
  from Cons.prems(1) obtain c0 where c0: "mem (ca s0) cr = Some c0"
    by (auto split: option.splits)
  have "map_option c_lits (mem (ca s0) cr) = map_option c_lits (mem (ca s) cr)"
    using Cons.prems(4) by simp
  with c0 obtain c where c: "mem (ca s) cr = Some c" "c_lits c = c_lits c0"
    by (cases "mem (ca s) cr") auto
  have lk: "locked s0 cr c0 = locked s cr c"
    by (rule locked_cong) (use Cons.prems c in simp_all)
  show ?case
  proof (cases "reduce_drop s n i cr")
    case True
    then have d: "length (c_lits c0) > 2" "locked s0 cr c0 = Inr False" "i < n div 2"
      using c lk by (simp_all add: reduce_drop_def)
    with Cons.prems(1) c0 obtain s2 where rm: "removeClause cr s0 = Inr s2"
      and r: "reduce_loop crs (i + 1) n kept s2 = Inr (kept1, s1)"
      by (auto split: sum.splits)
    note e = removeClause_unlocked [OF rm c0 d(2)]
    have a2: "assigns s2 = assigns s" "vardata s2 = vardata s"
      using Cons.prems(2,3) e(1,2) by simp_all
    have m2: "mem (ca s2) = (mem (ca s0))(cr \<mapsto> c0\<lparr> c_mark := 1 \<rparr>)"
      by (rule e(3))
    have l2: "\<forall>cr. map_option c_lits (mem (ca s2) cr) = map_option c_lits (mem (ca s) cr)"
      using Cons.prems(4) c c0 by (auto simp: m2)
    have f2: "fr_reduce s2 = fr_reduce s0"
      by (rule e(4))
    have mk: "marked s2 cr"
      by (simp add: marked_def m2)
    have mono: "\<forall>cr. marked s0 cr \<longrightarrow> marked s2 cr"
      by (auto simp: marked_def m2)
    from Cons.IH [OF r a2 l2] have ih:
      "kept1 = kept @ map snd (filter (\<lambda>(j, cr). \<not> reduce_drop s n j cr) (enumerate (i + 1) crs))"
      "\<forall>(j, cr) \<in> set (enumerate (i + 1) crs). reduce_drop s n j cr \<longrightarrow> marked s1 cr"
      "\<forall>cr. marked s2 cr \<longrightarrow> marked s1 cr"
      "\<forall>cr. (\<forall>(j, cr') \<in> set (enumerate (i + 1) crs). cr' = cr \<longrightarrow> \<not> reduce_drop s n j cr)
        \<longrightarrow> mem (ca s1) cr = mem (ca s2) cr"
      "fr_reduce s1 = fr_reduce s2"
      by simp_all
    have u: "\<forall>cr'. (\<forall>(j, cr'') \<in> set (enumerate i (cr # crs)). cr'' = cr' \<longrightarrow> \<not> reduce_drop s n j cr')
        \<longrightarrow> mem (ca s1) cr' = mem (ca s0) cr'"
      using ih(4) True by (auto simp: m2)
    show ?thesis
      using True ih(1,2,3,5) mk mono f2 u by auto
  next
    case False
    with Cons.prems(1) c0 c lk have r: "reduce_loop crs (i + 1) n (kept @ [cr]) s0 = Inr (kept1, s1)"
      by (auto simp: reduce_drop_def split: sum.splits if_splits)
    from Cons.IH [OF r Cons.prems(2,3,4)] False show ?thesis
      by auto
  qed
qed


lemma mset_insort_lt: "mset (insort_lt lt x xs) = add_mset x (mset xs)"
  by (induction xs) auto

lemma mset_sort_lt: "mset (sort_lt lt xs) = mset xs"
  by (induction xs) (auto simp: sort_lt_def mset_insort_lt)

lemma reduceDB_sweep_effect:
  assumes "reduceDB_sweep s = Inr s1"
  shows "\<exists>ls. sort_learnts s = Inr ls \<and> mset ls = mset (learnts s) \<and>
     learnts s1 = map snd (filter (\<lambda>(i, cr). \<not> reduce_drop s (length ls) i cr) (enumerate 0 ls)) \<and>
     (\<forall>(i, cr) \<in> set (enumerate 0 ls). reduce_drop s (length ls) i cr \<longrightarrow> marked s1 cr) \<and>
     (\<forall>cr. (\<forall>(i, cr') \<in> set (enumerate 0 ls). cr' = cr \<longrightarrow> \<not> reduce_drop s (length ls) i cr)
        \<longrightarrow> mem (ca s1) cr = mem (ca s) cr) \<and>
     fr_reduce s1 = fr_reduce s"
proof -
  let ?s0 = "s\<lparr> nb_reducedb := nb_reducedb s + 1 \<rparr>"
  have sl: "sort_learnts ?s0 = sort_learnts s"
    by (simp add: sort_learnts_def)
  from assms obtain ls kept s2 where
    ls: "sort_learnts s = Inr ls"
    and rl: "reduce_loop ls 0 (length ls) [] (?s0\<lparr> learnts := ls \<rparr>) = Inr (kept, s2)"
    and s1: "s1 = s2\<lparr> learnts := kept \<rparr>"
    by (auto simp: reduceDB_sweep_def Let_def thn_Inr_iff sl)
  have ms: "mset ls = mset (learnts s)"
    using ls by (auto simp: sort_learnts_def mset_sort_lt split: if_splits)
  have "kept = [] @ map snd (filter (\<lambda>(j, cr). \<not> reduce_drop s (length ls) j cr) (enumerate 0 ls)) \<and>
     (\<forall>(j, cr) \<in> set (enumerate 0 ls). reduce_drop s (length ls) j cr \<longrightarrow> marked s2 cr) \<and>
     (\<forall>cr. marked (?s0\<lparr> learnts := ls \<rparr>) cr \<longrightarrow> marked s2 cr) \<and>
     (\<forall>cr. (\<forall>(j, cr') \<in> set (enumerate 0 ls). cr' = cr \<longrightarrow> \<not> reduce_drop s (length ls) j cr)
        \<longrightarrow> mem (ca s2) cr = mem (ca (?s0\<lparr> learnts := ls \<rparr>)) cr) \<and>
     fr_reduce s2 = fr_reduce (?s0\<lparr> learnts := ls \<rparr>)"
    by (rule reduce_loop_effect [OF rl]) simp_all
  then show ?thesis
    using ls ms by (auto simp: s1 marked_def)
qed

lemma relocating_start: "unmarked a \<Longrightarrow> relocating a a ca_empty"
  by (auto simp: relocating_def unmarked_def ca_empty_def split: option.splits)

lemma ca_reloc_rel:
  assumes r: "relocating a0 a to" and c: "ca_reloc cr a to = Inr (cr1, a1, to1)"
  shows "relocating a0 a1 to1 \<and> mem to1 cr1 = mem a0 cr \<and> mem a0 cr \<noteq> None \<and>
         (\<forall>f. mem to f \<noteq> None \<longrightarrow> mem to1 f = mem to f)"
proof -
  from r have fresh: "\<And>f. mem to f \<noteq> None \<Longrightarrow> f < ca_size to"
    and rel: "\<And>cr. case mem a0 cr of
              None \<Rightarrow> mem a cr = None
            | Some c \<Rightarrow> \<not> c_reloced c \<and>
                (mem a cr = Some c \<or>
                 (\<exists>f. c_lits c \<noteq> [] \<and>
                    mem a cr = Some (c\<lparr> c_reloced := True, c_lits := (c_lits c)[0 := f] \<rparr>) \<and>
                    mem to f = Some c))"
    by (auto simp: relocating_def)
  from c obtain c' where c': "mem a cr = Some c'" "c_lits c' \<noteq> []"
    by (auto simp: ca_reloc_def split: option.splits list.splits)
  with rel [of cr] obtain c0 where c0: "mem a0 cr = Some c0" "\<not> c_reloced c0"
    and d: "c' = c0 \<or> (\<exists>f. c_lits c0 \<noteq> [] \<and>
              c' = c0\<lparr> c_reloced := True, c_lits := (c_lits c0)[0 := f] \<rparr> \<and> mem to f = Some c0)"
    by (cases "mem a0 cr") auto
  show ?thesis
  proof (cases "c_reloced c'")
    case True
    with d c0(2) obtain f where f: "c_lits c0 \<noteq> []"
      "c' = c0\<lparr> c_reloced := True, c_lits := (c_lits c0)[0 := f] \<rparr>" "mem to f = Some c0"
      by auto
    from f(1) have "hd ((c_lits c0)[0 := f]) = f"
      by (cases "c_lits c0") auto
    with c c' True f have "cr1 = f" "a1 = a" "to1 = to"
      by (auto simp: ca_reloc_def split: list.splits)
    with r f c0 show ?thesis
      by simp
  next
    case False
    with d have e: "c' = c0" by auto
    from c c' False e have r1: "cr1 = ca_size to"
      "to1 = to\<lparr> mem := (mem to)(ca_size to \<mapsto> c0), ca_size := ca_size to + clause_units c0 \<rparr>"
      "a1 = ca_set cr (c0\<lparr> c_reloced := True, c_lits := (c_lits c0)[0 := ca_size to] \<rparr>) a"
      by (auto simp: ca_reloc_def ca_alloc_clause_def split: list.splits)
    have nf: "mem to (ca_size to) = None"
      using fresh [of "ca_size to"] by (cases "mem to (ca_size to)") auto
    have keep: "mem to1 f = mem to f" if "mem to f \<noteq> None" for f
      using that nf by (auto simp: r1)
    have "relocating a0 a1 to1"
      unfolding relocating_def
    proof (intro conjI allI impI)
      fix x
      show "case mem a0 x of
              None \<Rightarrow> mem a1 x = None
            | Some c \<Rightarrow> \<not> c_reloced c \<and>
                (mem a1 x = Some c \<or>
                 (\<exists>f. c_lits c \<noteq> [] \<and>
                    mem a1 x = Some (c\<lparr> c_reloced := True, c_lits := (c_lits c)[0 := f] \<rparr>) \<and>
                    mem to1 f = Some c))"
      proof (cases "x = cr")
        case True
        with c0 c' e show ?thesis
          by (auto simp: r1 ca_set_def)
      next
        case False
        with rel [of x] keep show ?thesis
          by (cases "mem a0 x") (auto simp: r1(3) ca_set_def)
      qed
    next
      fix f
      assume "mem to1 f \<noteq> None"
      then show "f < ca_size to1"
        using fresh [of f] by (auto simp: r1 clause_units_def split: if_splits)
    qed
    with c0 keep show ?thesis
      by (simp add: r1)
  qed
qed


lemma reloc_list_rel:
  "relocating a0 a to \<Longrightarrow> reloc_list crs a to = Inr (crs1, a2, to2) \<Longrightarrow>
     relocating a0 a2 to2 \<and> length crs1 = length crs \<and>
     (\<forall>i < length crs. mem to2 (crs1 ! i) = mem a0 (crs ! i) \<and> mem a0 (crs ! i) \<noteq> None) \<and>
     (\<forall>f. mem to f \<noteq> None \<longrightarrow> mem to2 f = mem to f)"
proof (induction crs arbitrary: a to crs1)
  case Nil
  then show ?case by simp
next
  case (Cons cr crs)
  from Cons.prems(2) obtain cr1 a1 to1 where c: "ca_reloc cr a to = Inr (cr1, a1, to1)"
    by (cases "ca_reloc cr a to") (auto split: prod.splits)
  with Cons.prems(2) obtain crs2 where l: "reloc_list crs a1 to1 = Inr (crs2, a2, to2)"
    and e: "crs1 = cr1 # crs2"
    by (cases "reloc_list crs a1 to1") (auto split: prod.splits)
  from ca_reloc_rel [OF Cons.prems(1) c] have r1: "relocating a0 a1 to1"
    and m1: "mem to1 cr1 = mem a0 cr" "mem a0 cr \<noteq> None"
    and k1: "\<And>f. mem to f \<noteq> None \<Longrightarrow> mem to1 f = mem to f"
    by simp_all
  from Cons.IH [OF r1 l] have r2: "relocating a0 a2 to2" and len: "length crs2 = length crs"
    and m2: "\<And>i. i < length crs \<Longrightarrow> mem to2 (crs2 ! i) = mem a0 (crs ! i) \<and> mem a0 (crs ! i) \<noteq> None"
    and k2: "\<And>f. mem to1 f \<noteq> None \<Longrightarrow> mem to2 f = mem to1 f"
    by simp_all
  have "mem to2 (crs1 ! i) = mem a0 ((cr # crs) ! i) \<and> mem a0 ((cr # crs) ! i) \<noteq> None"
    if "i < length (cr # crs)" for i
  proof (cases i)
    case 0
    with m1 k2 [of cr1] e show ?thesis by simp
  next
    case (Suc j)
    with that m2 [of j] e show ?thesis by simp
  qed
  moreover have "mem to2 f = mem to f" if "mem to f \<noteq> None" for f
    using k1 [OF that] k2 [of f] that by simp
  ultimately show ?case
    using r2 len e by simp
qed

lemma reloc_ws_rel:
  "relocating a0 a to \<Longrightarrow> reloc_ws ws a to = Inr (ws1, a2, to2) \<Longrightarrow>
     relocating a0 a2 to2 \<and> (\<forall>f. mem to f \<noteq> None \<longrightarrow> mem to2 f = mem to f)"
proof (induction ws arbitrary: a to ws1)
  case Nil
  then show ?case by simp
next
  case (Cons w ws)
  from Cons.prems(2) obtain cr1 a1 to1 where c: "ca_reloc (cref w) a to = Inr (cr1, a1, to1)"
    by (cases "ca_reloc (cref w) a to") (auto split: prod.splits)
  with Cons.prems(2) obtain ws2 where l: "reloc_ws ws a1 to1 = Inr (ws2, a2, to2)"
    by (cases "reloc_ws ws a1 to1") (auto split: prod.splits)
  from ca_reloc_rel [OF Cons.prems(1) c] have r1: "relocating a0 a1 to1"
    and k1: "\<And>f. mem to f \<noteq> None \<Longrightarrow> mem to1 f = mem to f"
    by simp_all
  from Cons.IH [OF r1 l] have r2: "relocating a0 a2 to2"
    and k2: "\<And>f. mem to1 f \<noteq> None \<Longrightarrow> mem to2 f = mem to1 f"
    by simp_all
  have "mem to2 f = mem to f" if "mem to f \<noteq> None" for f
    using k1 [OF that] k2 [of f] that by simp
  with r2 show ?case by simp
qed

lemma reloc_watches_rel:
  "relocating a0 (ca s) to \<Longrightarrow> reloc_watches ps s to = Inr (s1, to1) \<Longrightarrow>
     relocating a0 (ca s1) to1 \<and> learnts s1 = learnts s \<and> clauses s1 = clauses s \<and>
     (\<forall>f. mem to f \<noteq> None \<longrightarrow> mem to1 f = mem to f)"
proof (induction ps arbitrary: s to)
  case Nil
  then show ?case by simp
next
  case (Cons p ps)
  from Cons.prems(2) have pl: "p < length (watches s)"
    by (auto split: if_splits)
  with Cons.prems(2) obtain ws1 a1 to0 where
    w: "reloc_ws (watches s ! p) (ca s) to = Inr (ws1, a1, to0)"
    by (cases "reloc_ws (watches s ! p) (ca s) to") (auto split: prod.splits)
  let ?s = "s\<lparr> watches := (watches s)[p := ws1], ca := a1 \<rparr>"
  from Cons.prems(2) pl w have l: "reloc_watches ps ?s to0 = Inr (s1, to1)"
    by simp
  from reloc_ws_rel [OF Cons.prems(1) w] have r1: "relocating a0 (ca ?s) to0"
    and k1: "\<And>f. mem to f \<noteq> None \<Longrightarrow> mem to0 f = mem to f"
    by simp_all
  from Cons.IH [OF r1 l] have r2: "relocating a0 (ca s1) to1"
    "learnts s1 = learnts s" "clauses s1 = clauses s"
    and k2: "\<And>f. mem to0 f \<noteq> None \<Longrightarrow> mem to1 f = mem to0 f"
    by simp_all
  have "mem to1 f = mem to f" if "mem to f \<noteq> None" for f
    using k1 [OF that] k2 [of f] that by simp
  with r2 show ?case by simp
qed

lemma reloc_reasons_rel:
  "relocating a0 (ca s) to \<Longrightarrow> reloc_reasons qs s to = Inr (s1, to1) \<Longrightarrow>
     relocating a0 (ca s1) to1 \<and> learnts s1 = learnts s \<and> clauses s1 = clauses s \<and>
     (\<forall>f. mem to f \<noteq> None \<longrightarrow> mem to1 f = mem to f)"
proof (induction qs arbitrary: s to)
  case Nil
  then show ?case by simp
next
  case (Cons q qs)
  from Cons.prems(2) have vl: "var q < length (vardata s)"
    by (auto split: if_splits)
  show ?case
  proof (cases "reason s (var q)")
    case None
    with Cons.prems(2) vl have "reloc_reasons qs s to = Inr (s1, to1)"
      by simp
    from Cons.IH [OF Cons.prems(1) this] show ?thesis .
  next
    case (Some r)
    with Cons.prems(2) vl obtain c where c: "mem (ca s) r = Some c"
      by (cases "mem (ca s) r") auto
    with Cons.prems(2) vl Some obtain b where
      b: "(if c_reloced c then Inr True else locked s r c) = Inr b"
      by (cases "if c_reloced c then Inr True else locked s r c") auto
    show ?thesis
    proof (cases b)
      case False
      with Cons.prems(2) vl Some c b have "reloc_reasons qs s to = Inr (s1, to1)"
        by simp
      from Cons.IH [OF Cons.prems(1) this] show ?thesis .
    next
      case True
      with Cons.prems(2) vl Some c b obtain r1 a1 to0 where
        cr: "ca_reloc r (ca s) to = Inr (r1, a1, to0)"
        by (cases "ca_reloc r (ca s) to") (auto split: prod.splits)
      let ?s = "s\<lparr> vardata := (vardata s)[var q := (vardata s ! var q)\<lparr> vd_reason := Some r1 \<rparr>],
                   ca := a1 \<rparr>"
      from Cons.prems(2) vl Some c b True cr have l: "reloc_reasons qs ?s to0 = Inr (s1, to1)"
        by simp
      from ca_reloc_rel [OF Cons.prems(1) cr] have r1: "relocating a0 (ca ?s) to0"
        and k1: "\<And>f. mem to f \<noteq> None \<Longrightarrow> mem to0 f = mem to f"
        by simp_all
      from Cons.IH [OF r1 l] have r2: "relocating a0 (ca s1) to1"
        "learnts s1 = learnts s" "clauses s1 = clauses s"
        and k2: "\<And>f. mem to0 f \<noteq> None \<Longrightarrow> mem to1 f = mem to0 f"
        by simp_all
      have "mem to1 f = mem to f" if "mem to f \<noteq> None" for f
        using k1 [OF that] k2 [of f] that by simp
      with r2 show ?thesis by simp
    qed
  qed
qed

lemma garbageCollect_lists:
  assumes u: "unmarked (ca s)" and g: "garbageCollect s = Inr s2"
  shows "length (learnts s2) = length (learnts s) \<and>
     (\<forall>i < length (learnts s). mem (ca s2) (learnts s2 ! i) = mem (ca s) (learnts s ! i)) \<and>
     length (clauses s2) = length (clauses s) \<and>
     (\<forall>i < length (clauses s). mem (ca s2) (clauses s2 ! i) = mem (ca s) (clauses s ! i))"
proof -
  from g obtain s3 to where ra: "relocAll s ca_empty = Inr (s3, to)" and s2: "s2 = s3\<lparr> ca := to \<rparr>"
    by (auto simp: garbageCollect_def thn_Inr_iff)
  from ra obtain sa ta sb tb ls a3 t3 cs a4 where
    w: "reloc_watches [0 ..< 2 * nVars s] (cleanAll s) ca_empty = Inr (sa, ta)"
    and r: "reloc_reasons (trail sa) sa ta = Inr (sb, tb)"
    and l: "reloc_list (learnts sb) (ca sb) tb = Inr (ls, a3, t3)"
    and c: "reloc_list (clauses sb) a3 t3 = Inr (cs, a4, to)"
    and s3: "s3 = sb\<lparr> learnts := ls, clauses := cs, ca := a4 \<rparr>"
    by (auto simp: relocAll_def thn_Inr_iff)
  have r0: "relocating (ca s) (ca (cleanAll s)) ca_empty"
    using relocating_start [OF u] by (simp add: cleanAll_def)
  from reloc_watches_rel [OF r0 w] have ra: "relocating (ca s) (ca sa) ta"
    and la: "learnts sa = learnts s" "clauses sa = clauses s"
    by (simp_all add: cleanAll_def)
  from reloc_reasons_rel [OF ra r] have rb: "relocating (ca s) (ca sb) tb"
    and lb: "learnts sb = learnts s" "clauses sb = clauses s"
    using la by simp_all
  from reloc_list_rel [OF rb l] have r3: "relocating (ca s) a3 t3"
    and ll: "length ls = length (learnts s)"
    and ml: "\<And>i. i < length (learnts s) \<Longrightarrow>
        mem t3 (ls ! i) = mem (ca s) (learnts s ! i) \<and> mem (ca s) (learnts s ! i) \<noteq> None"
    using lb by simp_all
  from reloc_list_rel [OF r3 c] have lc: "length cs = length (clauses s)"
    and mc: "\<And>i. i < length (clauses s) \<Longrightarrow> mem to (cs ! i) = mem (ca s) (clauses s ! i)"
    and k: "\<And>f. mem t3 f \<noteq> None \<Longrightarrow> mem to f = mem t3 f"
    using lb by simp_all
  have "mem to (ls ! i) = mem (ca s) (learnts s ! i)" if "i < length (learnts s)" for i
    using ml [OF that] k [of "ls ! i"] by simp
  with ll lc mc show ?thesis
    by (simp add: s2 s3)
qed

lemma checkGarbage_lists:
  assumes "unmarked (ca s)" "checkGarbage s = Inr s2"
  shows "length (learnts s2) = length (learnts s) \<and>
     (\<forall>i < length (learnts s). mem (ca s2) (learnts s2 ! i) = mem (ca s) (learnts s ! i)) \<and>
     length (clauses s2) = length (clauses s) \<and>
     (\<forall>i < length (clauses s). mem (ca s2) (clauses s2 ! i) = mem (ca s) (clauses s ! i))"
proof (cases "real (ca_wasted (ca s)) > real (ca_size (ca s)) * garbage_frac s")
  case True
  with assms(2) have "garbageCollect s = Inr s2"
    by (simp add: checkGarbage_def)
  from garbageCollect_lists [OF assms(1) this] show ?thesis .
next
  case False
  with assms(2) have "s2 = s"
    by (simp add: checkGarbage_def)
  then show ?thesis by simp
qed


lemma removeClause_unmarked:
  assumes "removeClause cr s = Inr s1" "unmarked (ca s)"
  shows "unmarked (ca s1)"
  using assms
  by (auto simp: removeClause_def detachClause_def thn_Inr_iff ca_free_def ca_set_def unmarked_def
      split: if_splits option.splits)

lemma reduce_loop_unmarked:
  "reduce_loop crs i n kept s = Inr (kept1, s1) \<Longrightarrow> unmarked (ca s) \<Longrightarrow> unmarked (ca s1)"
proof (induction crs arbitrary: i kept s)
  case Nil
  then show ?case by simp
next
  case (Cons cr crs)
  from Cons.prems(1) obtain c where c: "mem (ca s) cr = Some c"
    by (auto split: option.splits)
  show ?case
  proof (cases "length (c_lits c) > 2")
    case False
    with Cons.prems(1) c have "reduce_loop crs (i + 1) n (kept @ [cr]) s = Inr (kept1, s1)"
      by simp
    from Cons.IH [OF this Cons.prems(2)] show ?thesis .
  next
    case True
    with Cons.prems(1) c obtain lk where lk: "locked s cr c = Inr lk"
      by (cases "locked s cr c") auto
    show ?thesis
    proof (cases "\<not> lk \<and> i < n div 2")
      case False
      with Cons.prems(1) c True lk have "reduce_loop crs (i + 1) n (kept @ [cr]) s = Inr (kept1, s1)"
        by auto
      from Cons.IH [OF this Cons.prems(2)] show ?thesis .
    next
      case t: True
      with Cons.prems(1) c True lk obtain s0 where rm: "removeClause cr s = Inr s0"
        and r: "reduce_loop crs (i + 1) n kept s0 = Inr (kept1, s1)"
        by (cases "removeClause cr s") auto
      from Cons.IH [OF r removeClause_unmarked [OF rm Cons.prems(2)]] show ?thesis .
    qed
  qed
qed

lemma reduceDB_sweep_unmarked:
  assumes "reduceDB_sweep s = Inr s1" "unmarked (ca s)"
  shows "unmarked (ca s1)"
proof -
  from assms(1) obtain ls kept s2 where
    rl: "reduce_loop ls 0 (length ls) [] (s\<lparr> nb_reducedb := nb_reducedb s + 1, learnts := ls \<rparr>)
           = Inr (kept, s2)"
    and s1: "s1 = s2\<lparr> learnts := kept \<rparr>"
    by (auto simp: reduceDB_sweep_def Let_def thn_Inr_iff)
  from reduce_loop_unmarked [OF rl] assms(2) show ?thesis
    by (simp add: s1)
qed

text \<open>
  Claim C6. When \<^verbatim>\<open>reduceDB\<close> returns, let \<open>ls\<close> be \<^verbatim>\<open>learnts\<close> as sorted, a
  permutation of \<^verbatim>\<open>learnts\<close>, and \<open>s1\<close> the state when \<^verbatim>\<open>checkGarbage\<close> is
  called. The learnt clauses of \<open>s1\<close> are those of \<open>ls\<close>, in the order of \<open>ls\<close>,
  without the ones at an index \<open>i\<close> where the clause has more than two literals, is
  not locked and \<open>i\<close> is below half the length of \<open>ls\<close>. The clauses left out bear
  the deletion mark; a reference that is not left out at any index keeps its clause
  untouched; a clause of at most two literals or a locked one stays in the list. When the
  wasted part of the arena does not exceed the fraction, \<^verbatim>\<open>checkGarbage\<close> changes
  nothing. In any case, also when \<^verbatim>\<open>checkGarbage\<close> collects the garbage and every
  reference changes, the list \<^verbatim>\<open>learnts\<close> that \<^verbatim>\<open>reduceDB\<close> returns has the length of
  the list of \<open>s1\<close>, and its reference at each index holds the clause that the reference
  of \<open>s1\<close> at that index held: the clauses that were kept, in the same order.
\<close>

theorem reduceDB_drops:
  assumes "reduceDB s = Inr s2"
  shows "\<exists>ls s1. sort_learnts s = Inr ls \<and> mset ls = mset (learnts s) \<and>
     reduceDB_sweep s = Inr s1 \<and> checkGarbage s1 = Inr s2 \<and>
     learnts s1 = map snd (filter (\<lambda>(i, cr). \<not> reduce_drop s (length ls) i cr) (enumerate 0 ls)) \<and>
     (\<forall>i < length ls. reduce_drop s (length ls) i (ls ! i) \<longrightarrow> marked s1 (ls ! i)) \<and>
     (\<forall>cr. (\<forall>i < length ls. ls ! i = cr \<longrightarrow> \<not> reduce_drop s (length ls) i cr)
        \<longrightarrow> mem (ca s1) cr = mem (ca s) cr) \<and>
     (\<forall>i < length ls. \<forall>c. mem (ca s) (ls ! i) = Some c \<and>
          (length (c_lits c) \<le> 2 \<or> locked s (ls ! i) c = Inr True) \<longrightarrow> ls ! i \<in> set (learnts s1)) \<and>
     (\<not> real (ca_wasted (ca s1)) > real (ca_size (ca s1)) * garbage_frac s1 \<longrightarrow> s2 = s1) \<and>
     (unmarked (ca s) \<longrightarrow>
        length (learnts s2) = length (learnts s1) \<and>
        (\<forall>i < length (learnts s1). mem (ca s2) (learnts s2 ! i) = mem (ca s1) (learnts s1 ! i)))"
proof -
  from assms obtain s1 where sw: "reduceDB_sweep s = Inr s1" and cg: "checkGarbage s1 = Inr s2"
    by (auto simp: reduceDB_def thn_Inr_iff)
  from reduceDB_sweep_effect [OF sw] obtain ls where
    ls: "sort_learnts s = Inr ls" "mset ls = mset (learnts s)"
    and l1: "learnts s1 = map snd (filter (\<lambda>(i, cr). \<not> reduce_drop s (length ls) i cr) (enumerate 0 ls))"
    and mk: "\<forall>(i, cr) \<in> set (enumerate 0 ls). reduce_drop s (length ls) i cr \<longrightarrow> marked s1 cr"
    and un: "\<forall>cr. (\<forall>(i, cr') \<in> set (enumerate 0 ls). cr' = cr \<longrightarrow> \<not> reduce_drop s (length ls) i cr)
        \<longrightarrow> mem (ca s1) cr = mem (ca s) cr"
    by blast
  have a: "\<forall>i < length ls. reduce_drop s (length ls) i (ls ! i) \<longrightarrow> marked s1 (ls ! i)"
    using mk by (auto simp: in_set_enumerate_eq)
  have b: "\<forall>cr. (\<forall>i < length ls. ls ! i = cr \<longrightarrow> \<not> reduce_drop s (length ls) i cr)
        \<longrightarrow> mem (ca s1) cr = mem (ca s) cr"
  proof (intro allI impI)
    fix cr
    assume h: "\<forall>i < length ls. ls ! i = cr \<longrightarrow> \<not> reduce_drop s (length ls) i cr"
    have "\<forall>(i, cr') \<in> set (enumerate 0 ls). cr' = cr \<longrightarrow> \<not> reduce_drop s (length ls) i cr"
      using h by (auto simp: in_set_enumerate_eq)
    with un show "mem (ca s1) cr = mem (ca s) cr"
      by blast
  qed
  have c: "\<forall>i < length ls. \<forall>c. mem (ca s) (ls ! i) = Some c \<and>
          (length (c_lits c) \<le> 2 \<or> locked s (ls ! i) c = Inr True) \<longrightarrow> ls ! i \<in> set (learnts s1)"
  proof (intro allI impI)
    fix i c
    assume i: "i < length ls"
      and h: "mem (ca s) (ls ! i) = Some c \<and>
          (length (c_lits c) \<le> 2 \<or> locked s (ls ! i) c = Inr True)"
    then have nd: "\<not> reduce_drop s (length ls) i (ls ! i)"
      by (auto simp: reduce_drop_def)
    have "(i, ls ! i) \<in> set (enumerate 0 ls)"
      using i by (simp add: in_set_enumerate_eq)
    with nd have "(i, ls ! i) \<in> set (filter (\<lambda>(i, cr). \<not> reduce_drop s (length ls) i cr) (enumerate 0 ls))"
      by simp
    then show "ls ! i \<in> set (learnts s1)"
      unfolding l1 by (metis (no_types, lifting) image_eqI set_map snd_conv)
  qed
  have d: "\<not> real (ca_wasted (ca s1)) > real (ca_size (ca s1)) * garbage_frac s1 \<longrightarrow> s2 = s1"
    using cg by (auto simp: checkGarbage_def)
  have e: "unmarked (ca s) \<longrightarrow>
        length (learnts s2) = length (learnts s1) \<and>
        (\<forall>i < length (learnts s1). mem (ca s2) (learnts s2 ! i) = mem (ca s1) (learnts s1 ! i))"
    using checkGarbage_lists [OF reduceDB_sweep_unmarked [OF sw] cg] by simp
  show ?thesis
    using ls sw cg l1 a b c d e by blast
qed

lemmas eval_defs2 = reduce_example_def three_vars_def newVar_def Solver_init_def
  insertVarOrder_def inHeap_def heap_insert_def nVars_def occ_init_def mkLit_def vec_capacity_def
  Let_def valueL_def lxor_def var_def sign_def ca_empty_def

lemma kept_of_Inr:
  "kept_of r = Inr xs \<Longrightarrow>
     \<exists>s. r = Inr s \<and> map (\<lambda>cr. (cr, map_option c_lits (mem (ca s) cr))) (learnts s) = xs"
  by (cases r) (auto simp: kept_of_def)

lemma reduce_example_gc:
  "kept_of (reduceDB reduce_example) = Inr [(0, Some [1, 2, 4]), (6, Some [0, 3, 5]), (12, Some [1, 3])]"
  by code_simp

lemma reduce_example_sweep:
  "kept_of (reduceDB_sweep reduce_example) = Inr [(17, Some [1, 2, 4]), (11, Some [0, 3, 5]), (6, Some [1, 3])]"
  by code_simp

lemma reduce_example_sorted: "sort_learnts reduce_example = Inr [17, 0, 11, 6]"
  by (simp add: sort_learnts_def sort_lt_def reduceDB_lt_def eval_defs2)

lemma reduce_example_unmarked: "unmarked (ca reduce_example)"
  by (auto simp: unmarked_def reduce_example_def split: if_splits)

lemma reduce_example_drop:
  "reduce_drop reduce_example (length [17, 0, 11, 6 :: nat]) 1 ([17, 0, 11, 6] ! 1)"
  by (simp add: reduce_drop_def locked_def reason_def eval_defs2)

theorem reduceDB_drops_witness:
  "\<exists>s1 s2. reduceDB_sweep reduce_example = Inr s1 \<and> reduceDB reduce_example = Inr s2 \<and>
     unmarked (ca reduce_example) \<and>
     sort_learnts reduce_example = Inr [17, 0, 11, 6] \<and>
     learnts s1 = [17, 11, 6] \<and> marked s1 0 \<and> learnts s2 = [0, 6, 12] \<and>
     (\<forall>i < 3. mem (ca s2) (learnts s2 ! i) = mem (ca s1) (learnts s1 ! i)) \<and>
     map (\<lambda>cr. map_option c_lits (mem (ca s2) cr)) (learnts s2)
       = [Some [1, 2, 4], Some [0, 3, 5], Some [1, 3]]"
proof -
  from kept_of_Inr [OF reduce_example_gc] obtain s2 where
    r: "reduceDB reduce_example = Inr s2"
    and k2: "map (\<lambda>cr. (cr, map_option c_lits (mem (ca s2) cr))) (learnts s2)
       = [(0, Some [1, 2, 4]), (6, Some [0, 3, 5]), (12, Some [1, 3])]"
    by auto
  from reduceDB_drops [OF r] reduce_example_sorted reduce_example_unmarked obtain s1 where
    sw: "reduceDB_sweep reduce_example = Inr s1"
    and mk: "\<forall>i < length [17, 0, 11, 6 :: nat].
        reduce_drop reduce_example (length [17, 0, 11, 6 :: nat]) i ([17, 0, 11, 6] ! i)
          \<longrightarrow> marked s1 ([17, 0, 11, 6] ! i)"
    and pw: "length (learnts s2) = length (learnts s1)"
      "\<forall>i < length (learnts s1). mem (ca s2) (learnts s2 ! i) = mem (ca s1) (learnts s1 ! i)"
    by auto
  from kept_of_Inr [OF reduce_example_sweep] sw have
    k1: "map (\<lambda>cr. (cr, map_option c_lits (mem (ca s1) cr))) (learnts s1)
       = [(17, Some [1, 2, 4]), (11, Some [0, 3, 5]), (6, Some [1, 3])]"
    by auto
  from k1 have l1: "learnts s1 = [17, 11, 6]"
    by (auto simp: map_eq_Cons_conv)
  from k2 have l2: "learnts s2 = [0, 6, 12]"
    by (auto simp: map_eq_Cons_conv)
  from k2 l2 have c2: "map (\<lambda>cr. map_option c_lits (mem (ca s2) cr)) (learnts s2)
       = [Some [1, 2, 4], Some [0, 3, 5], Some [1, 3]]"
    by simp
  have "marked s1 ([17, 0, 11, 6] ! 1)"
    by (rule mk [rule_format, OF _ reduce_example_drop]) simp
  then have m: "marked s1 0"
    by simp
  from pw l1 have p3: "\<forall>i < 3. mem (ca s2) (learnts s2 ! i) = mem (ca s1) (learnts s1 ! i)"
    by simp
  note so = reduce_example_sorted and um = reduce_example_unmarked
  show ?thesis
    by (intro exI [of _ s1] exI [of _ s2] conjI) (fact sw r um so l1 m l2 p3 c2)+
qed


subsection \<open>Frames of the other operations\<close>

lemma fr_cancel_upd [simp]:
  "fr_cancel (s\<lparr> assigns := a \<rparr>) = fr_cancel s"
  "fr_cancel (s\<lparr> polarity := b \<rparr>) = fr_cancel s"
  "fr_cancel (s\<lparr> order_heap := c \<rparr>) = fr_cancel s"
  "fr_cancel (s\<lparr> qhead := d \<rparr>) = fr_cancel s"
  "fr_cancel (s\<lparr> trail := e \<rparr>) = fr_cancel s"
  "fr_cancel (s\<lparr> trail_lim := f \<rparr>) = fr_cancel s"
  by (simp_all add: fr_cancel_def)

lemma fr_pick_upd [simp]:
  "fr_pick (s\<lparr> order_heap := c \<rparr>) = fr_pick s"
  "fr_pick (s\<lparr> decisions := d \<rparr>) = fr_pick s"
  by (simp_all add: fr_pick_def)

lemma fr_learn_upd [simp]:
  "fr_learn (s\<lparr> ca := a \<rparr>) = fr_learn s"
  "fr_learn (s\<lparr> learnts := b \<rparr>) = fr_learn s"
  "fr_learn (s\<lparr> watches := c \<rparr>) = fr_learn s"
  "fr_learn (s\<lparr> nb_lits_in_learnts := d \<rparr>) = fr_learn s"
  "fr_learn (s\<lparr> cla_inc := e \<rparr>) = fr_learn s"
  "fr_learn (s\<lparr> assigns := f \<rparr>) = fr_learn s"
  "fr_learn (s\<lparr> vardata := g \<rparr>) = fr_learn s"
  "fr_learn (s\<lparr> trail := h \<rparr>) = fr_learn s"
  by (simp_all add: fr_learn_def)

lemma cancel_loop_fr: "cancel_loop qs s = Inr s1 \<Longrightarrow> fr_cancel s1 = fr_cancel s"
  by (induction qs arbitrary: s) (auto simp: insertVarOrder_def split: if_splits)

lemma cancelUntil_frame: "cancelUntil lv s = Inr s1 \<Longrightarrow> fr_cancel s1 = fr_cancel s"
  by (auto simp: cancelUntil_def thn_Inr_iff split: if_splits dest: cancel_loop_fr)

lemma pick_loop_frame: "pick_loop s = Inr (r, s1) \<Longrightarrow> fr_pick s1 = fr_pick s"
proof (induction s rule: pick_loop.induct)
  case (1 s)
  show ?case
  proof (cases "order_heap s = []")
    case True
    with "1.prems" show ?thesis
      by (subst (asm) pick_loop.simps) simp
  next
    case False
    from "1.prems" False obtain x h where rm: "heap_removeMin (activity s) (order_heap s) = Inr (x, h)"
      by (subst (asm) pick_loop.simps) (auto split: sum.splits)
    from "1.prems" False rm have xl: "x < length (assigns s)"
      by (subst (asm) pick_loop.simps) (auto split: if_splits)
    show ?thesis
    proof (cases "assigns s ! x \<noteq> l_Undef")
      case True
      with "1.prems" False rm xl have r: "pick_loop (s\<lparr> order_heap := h \<rparr>) = Inr (r, s1)"
        by (subst (asm) pick_loop.simps) simp
      have nx: "\<not> \<not> x < length (assigns s)"
        using xl by simp
      from "1.IH" [OF False rm refl nx True r] show ?thesis
        by simp
    next
      case u: False
      with "1.prems" False rm xl show ?thesis
        by (subst (asm) pick_loop.simps) auto
    qed
  qed
qed

lemma pickBranchLit_Inr:
  "pickBranchLit s = Inr (r, s1) \<longleftrightarrow>
     (pick_loop s = Inr (None, s1) \<and> r = None) \<or>
     (\<exists>x s0. pick_loop s = Inr (Some x, s0) \<and> x < length (polarity s0) \<and>
        r = Some (mkLit x (polarity s0 ! x)) \<and> s1 = s0\<lparr> decisions := decisions s0 + 1 \<rparr>)"
proof (cases "pick_loop s")
  case (Inl e)
  then show ?thesis by (simp add: pickBranchLit_def)
next
  case (Inr a)
  obtain r0 s0 where a: "a = (r0, s0)" by (cases a)
  show ?thesis
    by (cases r0) (auto simp: pickBranchLit_def Inr a)
qed

lemma pickBranchLit_frame: "pickBranchLit s = Inr (r, s1) \<Longrightarrow> fr_pick s1 = fr_pick s"
  by (auto simp: pickBranchLit_Inr dest: pick_loop_frame)

lemma attachClause_learn: "attachClause cr s = Inr s1 \<Longrightarrow> fr_learn s1 = fr_learn s"
  by (auto simp: attachClause_def Let_def split: option.splits if_splits)

lemma claBumpActivity_learn: "claBumpActivity cr s = Inr s1 \<Longrightarrow> fr_learn s1 = fr_learn s"
  by (auto simp: claBumpActivity_def Let_def thn_Inr_iff split: option.splits if_splits)

lemma uncheckedEnqueue_learn: "uncheckedEnqueue p from s = Inr s1 \<Longrightarrow> fr_learn s1 = fr_learn s"
  by (auto simp: uncheckedEnqueue_Inr)

lemma uncheckedEnqueue_frame: "uncheckedEnqueue p from s = Inr s1 \<Longrightarrow> fr_propagate s1 = fr_propagate s"
  by (auto simp: uncheckedEnqueue_Inr)

lemma search_learn_frame: "search_learn lc lbd s = Inr s1 \<Longrightarrow> fr_learn s1 = fr_learn s"
  by (auto simp: search_learn_def Let_def thn_Inr_iff ca_alloc_def ca_alloc_clause_def
      split: if_splits option.splits prod.splits
      dest!: attachClause_learn claBumpActivity_learn uncheckedEnqueue_learn)

lemma reloc_watches_frame:
  "reloc_watches ps s to = Inr (s1, to1) \<Longrightarrow> fr_reduce s1 = fr_reduce s"
proof (induction ps arbitrary: s to)
  case Nil
  then show ?case by simp
next
  case (Cons p ps)
  from Cons.prems obtain ws1 a1 to0 where
    "reloc_watches ps (s\<lparr> watches := (watches s)[p := ws1], ca := a1 \<rparr>) to0 = Inr (s1, to1)"
    by (auto split: if_splits sum.splits)
  from Cons.IH [OF this] show ?case
    by simp
qed

lemma reloc_reasons_frame:
  "reloc_reasons qs s to = Inr (s1, to1) \<Longrightarrow> fr_reduce s1 = fr_reduce s"
proof (induction qs arbitrary: s to)
  case Nil
  then show ?case by simp
next
  case (Cons q qs)
  from Cons.prems have
    "reloc_reasons qs s to = Inr (s1, to1) \<or>
     (\<exists>r1 a1 to0. reloc_reasons qs (s\<lparr> vardata := (vardata s)[var q :=
                      (vardata s ! var q)\<lparr> vd_reason := Some r1 \<rparr>], ca := a1 \<rparr>) to0 = Inr (s1, to1))"
    by (auto split: if_splits sum.splits option.splits)
  then show ?case
    using Cons.IH by fastforce
qed

lemma relocAll_frame: "relocAll s to = Inr (s1, to1) \<Longrightarrow> fr_reduce s1 = fr_reduce s"
  by (auto simp: relocAll_def thn_Inr_iff cleanAll_def
      dest!: reloc_watches_frame reloc_reasons_frame)

lemma checkGarbage_frame: "checkGarbage s = Inr s1 \<Longrightarrow> fr_reduce s1 = fr_reduce s"
  by (auto simp: checkGarbage_def garbageCollect_def thn_Inr_iff split: if_splits
      dest!: relocAll_frame)

lemma reduceDB_frame: "reduceDB s = Inr s1 \<Longrightarrow> fr_reduce s1 = fr_reduce s"
  by (auto simp: reduceDB_def thn_Inr_iff dest!: reduceDB_sweep_effect checkGarbage_frame)

subsection \<open>Faults and counters of the operations of search\<close>

lemma thn_Inl_iff: "thn m f = Inl e \<longleftrightarrow> m = Inl e \<or> (\<exists>x. m = Inr x \<and> f x = Inl e)"
  by (cases m) (auto simp: thn_def)

lemma value_lit_plain: "value_lit s p = Inl e \<Longrightarrow> plain e"
  by (auto simp: value_lit_def plain_def split: if_splits)

lemma uncheckedEnqueue_plain: "uncheckedEnqueue p from s = Inl e \<Longrightarrow> plain e"
  by (auto simp: uncheckedEnqueue_def plain_def split: if_splits)

lemma find_watch_plain: "find_watch s qs k = Inl e \<Longrightarrow> plain e"
  by (induction qs arbitrary: k) (auto split: sum.splits if_splits dest: value_lit_plain)

lemma propagate_watcher_plain: "propagate_watcher p w s = Inl e \<Longrightarrow> plain e"
  unfolding propagate_watcher_def Let_def
  by (auto simp: thn_Inl_iff split: option.splits if_splits
      dest: value_lit_plain find_watch_plain uncheckedEnqueue_plain)
    (auto simp: plain_def)

lemma propagate_ws_plain: "propagate_ws p ws kept s = Inl e \<Longrightarrow> plain e"
proof (induction ws arbitrary: kept s)
  case Nil
  then show ?case by simp
next
  case (Cons w ws)
  show ?case
  proof (cases "propagate_watcher p w s")
    case (Inl e')
    with Cons.prems show ?thesis
      by (auto dest: propagate_watcher_plain)
  next
    case (Inr a)
    obtain v s0 where a: "a = (v, s0)" by (cases a)
    from Cons.prems Inr a Cons.IH show ?thesis
      by (cases v) auto
  qed
qed

lemma propagate_loop_plain: "propagate_loop confl s = Inl e \<Longrightarrow> plain e"
proof (induction confl s rule: propagate_loop.induct)
  case (1 confl s)
  show ?case
  proof (cases "qhead s < length (trail s)")
    case False
    with "1.prems" show ?thesis
      by (subst (asm) propagate_loop.simps) simp
  next
    case True
    let ?p = "trail s ! qhead s"
    let ?s1 = "s\<lparr> qhead := qhead s + 1, propagations := propagations s + 1 \<rparr>"
    show ?thesis
    proof (cases "?p < length (watches s)")
      case False
      with "1.prems" True show ?thesis
        by (subst (asm) propagate_loop.simps) (simp add: plain_def)
    next
      case pl: True
      then have nn: "\<not> \<not> ?p < length (watches ?s1)"
        by simp
      show ?thesis
      proof (cases "propagate_ws ?p (watches ?s1 ! ?p) [] ?s1")
        case (Inl e')
        with "1.prems" True pl have "e' = e"
          by (subst (asm) propagate_loop.simps) simp
        with Inl show ?thesis
          by (auto dest: propagate_ws_plain)
      next
        case (Inr a)
        obtain c0 ws s2 where a: "a = (c0, ws, s2)" by (cases a)
        from "1.prems" True pl Inr a have
          r: "propagate_loop (case c0 of None \<Rightarrow> confl | Some cr \<Rightarrow> Some cr)
                (s2\<lparr> watches := (watches s2)[?p := ws] \<rparr>) = Inl e"
          by (subst (asm) propagate_loop.simps) simp
        show ?thesis
          by (rule "1.IH" [OF True refl refl nn Inr [unfolded a] refl refl r])
      qed
    qed
  qed
qed

lemma propagate_plain: "propagate s = Inl e \<Longrightarrow> plain e"
  by (auto simp: propagate_def dest: propagate_loop_plain)


lemma varBumpActivity_plain: "varBumpActivity v s = Inl e \<Longrightarrow> plain e"
  by (auto simp: varBumpActivity_def Let_def plain_def split: if_splits)

lemma cla_rescale_plain: "cla_rescale crs a = Inl e \<Longrightarrow> plain e"
  by (induction crs arbitrary: a) (auto simp: plain_def split: option.splits if_splits)

lemma claBumpActivity_plain: "claBumpActivity cr s = Inl e \<Longrightarrow> plain e"
  by (auto simp: claBumpActivity_def Let_def thn_Inl_iff split: option.splits if_splits
      dest: cla_rescale_plain) (auto simp: plain_def)

lemma analyze_lits_plain: "analyze_lits qs out nb s = Inl e \<Longrightarrow> plain e"
proof (induction qs arbitrary: out nb s)
  case Nil
  then show ?case by simp
next
  case (Cons q qs)
  show ?case
  proof (cases "var q < length (seen s) \<and> \<not> seen s ! var q \<and> var q < length (vardata s)
      \<and> level s (var q) > 0")
    case False
    with Cons.prems have "analyze_lits qs out nb s = Inl e \<or> plain e"
      by (auto simp: plain_def split: if_splits)
    then show ?thesis using Cons.IH by blast
  next
    case True
    show ?thesis
    proof (cases "varBumpActivity (var q) s")
      case (Inl e')
      with Cons.prems True show ?thesis
        by (auto dest: varBumpActivity_plain)
    next
      case (Inr s0)
      let ?s2 = "s0\<lparr> seen := (seen s0)[var q := True] \<rparr>"
      from Cons.prems True Inr have
        "analyze_lits qs out (nb + 1) ?s2 = Inl e \<or> analyze_lits qs (out @ [q]) nb ?s2 = Inl e"
        by (auto simp: Let_def split: if_splits)
      then show ?thesis
        using Cons.IH by blast
    qed
  qed
qed

lemma analyze_scan_plain: "analyze_scan s n = Inl e \<Longrightarrow> plain e"
  by (induction n) (auto simp: plain_def split: if_splits)

lemma analyze_loop_plain: "analyze_loop confl p out nb n s = Inl e \<Longrightarrow> plain e"
proof (induction confl p out nb n s rule: analyze_loop.induct)
  case (1 confl p out nb n s)
  show ?case
  proof (cases confl)
    case None
    with "1.prems" show ?thesis
      by (subst (asm) analyze_loop.simps) (simp add: plain_def)
  next
    case (Some cr)
    show ?thesis
    proof (cases "mem (ca s) cr")
      case None
      with "1.prems" Some show ?thesis
        by (subst (asm) analyze_loop.simps) (simp add: plain_def)
    next
      case c: (Some c)
      let ?b = "if c_learnt c then claBumpActivity cr (s\<lparr> nb_resolutions := nb_resolutions s + 1 \<rparr>)
        else Inr (s\<lparr> nb_resolutions := nb_resolutions s + 1 \<rparr>)"
      show ?thesis
      proof (cases ?b)
        case (Inl e')
        with "1.prems" Some c have "e' = e"
          by (subst (asm) analyze_loop.simps) simp
        with Inl show ?thesis
          by (auto split: if_splits dest: claBumpActivity_plain)
      next
        case s1: (Inr s1)
        show ?thesis
        proof (cases "analyze_lits (drop (if p = None then 0 else 1) (c_lits c)) out nb s1")
          case (Inl e')
          with "1.prems" Some c s1 have "e' = e"
            by (subst (asm) analyze_loop.simps) simp
          with Inl show ?thesis
            by (auto dest: analyze_lits_plain)
        next
          case al: (Inr a)
          obtain out1 nb1 s2 where a: "a = (out1, nb1, s2)" by (cases a)
          show ?thesis
          proof (cases "analyze_scan s2 n")
            case (Inl e')
            with "1.prems" Some c s1 al a have "e' = e"
              by (subst (asm) analyze_loop.simps) simp
            with Inl show ?thesis
              by (auto dest: analyze_scan_plain)
          next
            case i: (Inr i)
            show ?thesis
            proof (cases "var (trail s2 ! i) < length (vardata s2) \<and> nb1 - 1 > 0")
              case False
              with "1.prems" Some c s1 al a i show ?thesis
                by (subst (asm) analyze_loop.simps) (auto simp: plain_def split: if_splits)
            next
              case True
              then have nv: "\<not> \<not> var (trail s2 ! i) < length (vardata s2)" and pos: "nb1 - 1 > 0"
                by simp_all
              from "1.prems" Some c s1 al a i True have
                r: "analyze_loop (reason s2 (var (trail s2 ! i))) (Some (trail s2 ! i)) out1 (nb1 - 1) i
                     (s2\<lparr> seen := (seen s2)[var (trail s2 ! i) := False] \<rparr>) = Inl e"
                by (subst (asm) analyze_loop.simps) simp
              show ?thesis
                by (rule "1.IH" [OF Some c s1 al [unfolded a] refl refl i nv pos r])
            qed
          qed
        qed
      qed
    qed
  qed
qed

lemma analyze_finish_plain: "analyze_finish s p out = Inl e \<Longrightarrow> plain e"
  by (auto simp: analyze_finish_def Let_def plain_def split: if_splits)

lemma lbd_loop_plain: "lbd_loop qs k s = Inl e \<Longrightarrow> plain e"
  by (induction qs arbitrary: k s) (auto simp: plain_def split: if_splits)

lemma clear_seen_plain: "clear_seen qs s = Inl e \<Longrightarrow> plain e"
  by (induction qs arbitrary: s) (auto simp: plain_def split: if_splits)

lemma analyze_plain: "analyze confl s = Inl e \<Longrightarrow> plain e"
  by (auto simp: analyze_def computeLBD_def thn_Inl_iff
      dest: analyze_loop_plain analyze_finish_plain lbd_loop_plain clear_seen_plain)

lemma cancel_loop_plain: "cancel_loop qs s = Inl e \<Longrightarrow> plain e"
  by (induction qs arbitrary: s) (auto simp: plain_def split: if_splits)

lemma cancelUntil_plain: "cancelUntil lv s = Inl e \<Longrightarrow> plain e"
  by (auto simp: cancelUntil_def thn_Inl_iff split: if_splits dest: cancel_loop_plain)

lemma attachClause_plain: "attachClause cr s = Inl e \<Longrightarrow> plain e"
  by (auto simp: attachClause_def Let_def plain_def split: option.splits if_splits)

lemma search_learn_plain: "search_learn lc lbd s = Inl e \<Longrightarrow> plain e"
  by (auto simp: search_learn_def Let_def thn_Inl_iff split: if_splits prod.splits option.splits
      dest: attachClause_plain claBumpActivity_plain uncheckedEnqueue_plain)
    (auto simp: plain_def)

lemma heap_removeMin_plain: "heap_removeMin act h = Inl e \<Longrightarrow> plain e"
  by (auto simp: heap_removeMin_def plain_def split: list.splits if_splits)

lemma pick_loop_plain: "pick_loop s = Inl e \<Longrightarrow> plain e"
proof (induction s rule: pick_loop.induct)
  case (1 s)
  show ?case
  proof (cases "order_heap s = []")
    case True
    with "1.prems" show ?thesis
      by (subst (asm) pick_loop.simps) simp
  next
    case False
    show ?thesis
    proof (cases "heap_removeMin (activity s) (order_heap s)")
      case (Inl e')
      with "1.prems" False have "e' = e"
        by (subst (asm) pick_loop.simps) simp
      with Inl show ?thesis
        by (auto dest: heap_removeMin_plain)
    next
      case (Inr a)
      obtain x h where a: "a = (x, h)" by (cases a)
      show ?thesis
      proof (cases "x < length (assigns s) \<and> assigns s ! x \<noteq> l_Undef")
        case False
        with "1.prems" \<open>order_heap s \<noteq> []\<close> Inr a show ?thesis
          by (subst (asm) pick_loop.simps) (auto simp: plain_def split: if_splits)
      next
        case True
        then have nx: "\<not> \<not> x < length (assigns s)" and u: "assigns s ! x \<noteq> l_Undef"
          by simp_all
        from "1.prems" \<open>order_heap s \<noteq> []\<close> Inr a True
        have r: "pick_loop (s\<lparr> order_heap := h \<rparr>) = Inl e"
          by (subst (asm) pick_loop.simps) simp
        show ?thesis
          by (rule "1.IH" [OF \<open>order_heap s \<noteq> []\<close> Inr [unfolded a] refl nx u r])
      qed
    qed
  qed
qed

lemma pickBranchLit_plain: "pickBranchLit s = Inl e \<Longrightarrow> plain e"
  by (auto simp: pickBranchLit_def thn_Inl_iff split: option.splits if_splits
      dest: pick_loop_plain) (auto simp: plain_def)


lemma locked_plain: "locked s cr c = Inl e \<Longrightarrow> plain e"
  by (auto simp: locked_def plain_def split: list.splits if_splits)

lemma detachClause_plain: "detachClause cr s = Inl e \<Longrightarrow> plain e"
  by (auto simp: detachClause_def plain_def split: option.splits if_splits)

lemma ca_free_plain: "ca_free cr a = Inl e \<Longrightarrow> plain e"
  by (auto simp: ca_free_def plain_def split: option.splits)

lemma removeClause_plain: "removeClause cr s = Inl e \<Longrightarrow> plain e"
  by (auto simp: removeClause_def thn_Inl_iff Let_def split: option.splits
      dest: detachClause_plain locked_plain ca_free_plain) (auto simp: plain_def)

lemma sort_learnts_plain: "sort_learnts s = Inl e \<Longrightarrow> plain e"
  by (auto simp: sort_learnts_def plain_def split: if_splits)

lemma reduce_loop_plain: "reduce_loop crs i n kept s = Inl e \<Longrightarrow> plain e"
proof (induction crs arbitrary: i kept s)
  case Nil
  then show ?case by simp
next
  case (Cons cr crs)
  from Cons.prems have
    "plain e \<or> (\<exists>k s1. reduce_loop crs (i + 1) n k s1 = Inl e)"
    by (auto simp: plain_def split: option.splits if_splits sum.splits
        dest: locked_plain removeClause_plain)
  then show ?case
    using Cons.IH by blast
qed

lemma reduceDB_sweep_plain: "reduceDB_sweep s = Inl e \<Longrightarrow> plain e"
  by (auto simp: reduceDB_sweep_def Let_def thn_Inl_iff
      dest: sort_learnts_plain reduce_loop_plain)

lemma ca_reloc_plain: "ca_reloc cr a to = Inl e \<Longrightarrow> plain e"
  by (auto simp: ca_reloc_def plain_def Let_def split: option.splits list.splits if_splits prod.splits)

lemma reloc_ws_plain: "reloc_ws ws a to = Inl e \<Longrightarrow> plain e"
proof (induction ws arbitrary: a to)
  case Nil
  then show ?case by simp
next
  case (Cons w ws)
  from Cons.prems have "plain e \<or> (\<exists>a1 to1. reloc_ws ws a1 to1 = Inl e)"
    by (auto split: sum.splits dest: ca_reloc_plain)
  then show ?case using Cons.IH by blast
qed

lemma reloc_list_plain: "reloc_list crs a to = Inl e \<Longrightarrow> plain e"
proof (induction crs arbitrary: a to)
  case Nil
  then show ?case by simp
next
  case (Cons cr crs)
  from Cons.prems have "plain e \<or> (\<exists>a1 to1. reloc_list crs a1 to1 = Inl e)"
    by (auto split: sum.splits dest: ca_reloc_plain)
  then show ?case using Cons.IH by blast
qed

lemma reloc_watches_plain: "reloc_watches ps s to = Inl e \<Longrightarrow> plain e"
proof (induction ps arbitrary: s to)
  case Nil
  then show ?case by simp
next
  case (Cons p ps)
  from Cons.prems have "plain e \<or> (\<exists>s1 to1. reloc_watches ps s1 to1 = Inl e)"
    by (auto simp: plain_def split: sum.splits if_splits dest: reloc_ws_plain)
  then show ?case using Cons.IH by blast
qed

lemma reloc_reasons_plain: "reloc_reasons qs s to = Inl e \<Longrightarrow> plain e"
proof (induction qs arbitrary: s to)
  case Nil
  then show ?case by simp
next
  case (Cons q qs)
  from Cons.prems have "plain e \<or> (\<exists>s1 to1. reloc_reasons qs s1 to1 = Inl e)"
    by (auto simp: plain_def split: sum.splits if_splits option.splits
        dest: ca_reloc_plain locked_plain)
  then show ?case using Cons.IH by blast
qed

lemma relocAll_plain: "relocAll s to = Inl e \<Longrightarrow> plain e"
  by (auto simp: relocAll_def thn_Inl_iff
      dest: reloc_watches_plain reloc_reasons_plain reloc_list_plain)

lemma checkGarbage_plain: "checkGarbage s = Inl e \<Longrightarrow> plain e"
  by (auto simp: checkGarbage_def garbageCollect_def thn_Inl_iff split: if_splits
      dest: relocAll_plain)

lemma reduceDB_plain: "reduceDB s = Inl e \<Longrightarrow> plain e"
  by (auto simp: reduceDB_def thn_Inl_iff dest: reduceDB_sweep_plain checkGarbage_plain)

lemma search_decide_plain: "search_decide s = Inl e \<Longrightarrow> plain e"
  by (auto simp: search_decide_def thn_Inl_iff split: if_splits option.splits
      dest: reduceDB_plain pickBranchLit_plain uncheckedEnqueue_plain)

lemma search_conflict_fault:
  "search_conflict confl s = Inl e \<Longrightarrow> plain e \<or> e = StatsDivByZero"
  by (auto simp: search_conflict_def Let_def thn_Inl_iff printIntermediateStats_def
      split: if_splits
      dest: analyze_plain cancelUntil_plain search_learn_plain)


lemma fr_propagate_keeps:
  assumes "fr_propagate s1 = fr_propagate s"
  shows "conflicts s1 = conflicts s" "lbdQueue s1 = lbdQueue s"
    "conflict_budget s1 = conflict_budget s" "trail_lim s1 = trail_lim s"
    "clauses s1 = clauses s" "learnts s1 = learnts s" "order_heap s1 = order_heap s"
    "polarity s1 = polarity s" "ok s1 = ok s" "trail_cap s1 = trail_cap s" "model s1 = model s"
    "activity s1 = activity s"
proof -
  have "f (fr_propagate s1) = f (fr_propagate s)" for f :: "Solver \<Rightarrow> 'a"
    using assms by simp
  from this [of conflicts] this [of lbdQueue] this [of conflict_budget] this [of trail_lim]
    this [of clauses] this [of learnts] this [of order_heap] this [of polarity] this [of ok]
    this [of trail_cap] this [of model] this [of activity]
  show "conflicts s1 = conflicts s" "lbdQueue s1 = lbdQueue s"
    "conflict_budget s1 = conflict_budget s" "trail_lim s1 = trail_lim s"
    "clauses s1 = clauses s" "learnts s1 = learnts s" "order_heap s1 = order_heap s"
    "polarity s1 = polarity s" "ok s1 = ok s" "trail_cap s1 = trail_cap s" "model s1 = model s"
    "activity s1 = activity s"
    by (simp_all add: fr_propagate_def)
qed

lemma fr_cancel_keeps:
  assumes "fr_cancel s1 = fr_cancel s"
  shows "conflicts s1 = conflicts s" "lbdQueue s1 = lbdQueue s"
    "conflict_budget s1 = conflict_budget s" "watches s1 = watches s" "ca s1 = ca s"
    "clauses s1 = clauses s" "learnts s1 = learnts s" "vardata s1 = vardata s"
    "ok s1 = ok s" "trail_cap s1 = trail_cap s" "model s1 = model s" "activity s1 = activity s"
proof -
  have "f (fr_cancel s1) = f (fr_cancel s)" for f :: "Solver \<Rightarrow> 'a"
    using assms by simp
  from this [of conflicts] this [of lbdQueue] this [of conflict_budget] this [of watches]
    this [of ca] this [of clauses] this [of learnts] this [of vardata] this [of ok]
    this [of trail_cap] this [of model] this [of activity]
  show "conflicts s1 = conflicts s" "lbdQueue s1 = lbdQueue s"
    "conflict_budget s1 = conflict_budget s" "watches s1 = watches s" "ca s1 = ca s"
    "clauses s1 = clauses s" "learnts s1 = learnts s" "vardata s1 = vardata s"
    "ok s1 = ok s" "trail_cap s1 = trail_cap s" "model s1 = model s" "activity s1 = activity s"
    by (simp_all add: fr_cancel_def)
qed

lemma fr_pick_keeps:
  assumes "fr_pick s1 = fr_pick s"
  shows "conflicts s1 = conflicts s" "lbdQueue s1 = lbdQueue s"
    "conflict_budget s1 = conflict_budget s" "watches s1 = watches s" "ca s1 = ca s"
    "clauses s1 = clauses s" "learnts s1 = learnts s" "vardata s1 = vardata s"
    "ok s1 = ok s" "trail_cap s1 = trail_cap s" "model s1 = model s" "activity s1 = activity s"
    "assigns s1 = assigns s" "trail s1 = trail s" "trail_lim s1 = trail_lim s"
    "qhead s1 = qhead s" "polarity s1 = polarity s"
proof -
  have "f (fr_pick s1) = f (fr_pick s)" for f :: "Solver \<Rightarrow> 'a"
    using assms by simp
  from this [of conflicts] this [of lbdQueue] this [of conflict_budget] this [of watches]
    this [of ca] this [of clauses] this [of learnts] this [of vardata] this [of ok]
    this [of trail_cap] this [of model] this [of activity] this [of assigns] this [of trail]
    this [of trail_lim] this [of qhead] this [of polarity]
  show "conflicts s1 = conflicts s" "lbdQueue s1 = lbdQueue s"
    "conflict_budget s1 = conflict_budget s" "watches s1 = watches s" "ca s1 = ca s"
    "clauses s1 = clauses s" "learnts s1 = learnts s" "vardata s1 = vardata s"
    "ok s1 = ok s" "trail_cap s1 = trail_cap s" "model s1 = model s" "activity s1 = activity s"
    "assigns s1 = assigns s" "trail s1 = trail s" "trail_lim s1 = trail_lim s"
    "qhead s1 = qhead s" "polarity s1 = polarity s"
    by (simp_all add: fr_pick_def)
qed

lemma fr_learn_keeps:
  assumes "fr_learn s1 = fr_learn s"
  shows "conflicts s1 = conflicts s" "lbdQueue s1 = lbdQueue s"
    "conflict_budget s1 = conflict_budget s" "clauses s1 = clauses s"
    "ok s1 = ok s" "trail_cap s1 = trail_cap s" "model s1 = model s" "activity s1 = activity s"
    "trail_lim s1 = trail_lim s" "qhead s1 = qhead s" "polarity s1 = polarity s"
    "order_heap s1 = order_heap s"
proof -
  have "f (fr_learn s1) = f (fr_learn s)" for f :: "Solver \<Rightarrow> 'a"
    using assms by simp
  from this [of conflicts] this [of lbdQueue] this [of conflict_budget]
    this [of clauses] this [of ok]
    this [of trail_cap] this [of model] this [of activity]
    this [of trail_lim] this [of qhead] this [of polarity] this [of order_heap]
  show "conflicts s1 = conflicts s" "lbdQueue s1 = lbdQueue s"
    "conflict_budget s1 = conflict_budget s" "clauses s1 = clauses s"
    "ok s1 = ok s" "trail_cap s1 = trail_cap s" "model s1 = model s" "activity s1 = activity s"
    "trail_lim s1 = trail_lim s" "qhead s1 = qhead s" "polarity s1 = polarity s"
    "order_heap s1 = order_heap s"
    by (simp_all add: fr_learn_def)
qed

lemma bq_push_length:
  "length (bq_elems (bq_push x q)) \<le> length (bq_elems q) + 1 \<and>
   bq_maxsize (bq_push x q) = bq_maxsize q"
  by (simp add: bq_push_def)

lemma search_conflict_counters:
  assumes "search_conflict confl s = Inr s1"
  shows "conflicts s1 = conflicts s \<and> conflict_budget s1 = conflict_budget s \<and>
     length (bq_elems (lbdQueue s1)) \<le> length (bq_elems (lbdQueue s)) + 1 \<and>
     bq_maxsize (lbdQueue s1) = bq_maxsize (lbdQueue s)"
proof -
  let ?s1 = "s\<lparr> trailQueue := bq_push (length (trail s)) (trailQueue s) \<rparr>"
  let ?s2 = "if conflicts ?s1 > 10000 \<and> bq_isvalid (lbdQueue ?s1)
                   \<and> real (length (trail ?s1)) > 14 / 10 * bq_getavg (trailQueue ?s1)
                then ?s1\<lparr> lbdQueue := bq_fastclear (lbdQueue ?s1) \<rparr> else ?s1"
  from assms obtain lc bt lbd s3 s4 s5 where
    an: "analyze confl ?s2 = Inr (lc, bt, lbd, s3)"
    and cu: "cancelUntil bt (s3\<lparr> lbdQueue := bq_push lbd (lbdQueue s3),
                sumLBD := sumLBD s3 + real lbd \<rparr>) = Inr s4"
    and sl: "search_learn lc lbd s4 = Inr s5"
    and s1: "s1 = claDecayActivity (varDecayActivity s5)"
    by (auto simp: search_conflict_def Let_def thn_Inr_iff split: if_splits)
  note a = fr_analyze_keeps [OF analyze_frame [OF an]]
  note c = fr_cancel_keeps [OF cancelUntil_frame [OF cu]]
  note l = fr_learn_keeps [OF search_learn_frame [OF sl]]
  have q2: "length (bq_elems (lbdQueue ?s2)) \<le> length (bq_elems (lbdQueue s)) \<and>
      bq_maxsize (lbdQueue ?s2) = bq_maxsize (lbdQueue s) \<and> conflicts ?s2 = conflicts s \<and>
      conflict_budget ?s2 = conflict_budget s"
    by (simp add: bq_fastclear_def)
  have "lbdQueue s1 = bq_push lbd (lbdQueue ?s2)"
    using a(10) c(2) l(2) by (simp add: s1 claDecayActivity_def varDecayActivity_def)
  moreover have "conflicts s1 = conflicts ?s2" "conflict_budget s1 = conflict_budget ?s2"
    using a(9,11) c(1,3) l(1,3) by (simp_all add: s1 claDecayActivity_def varDecayActivity_def)
  ultimately show ?thesis
    using q2 bq_push_length [of lbd "lbdQueue ?s2"] by (simp del: Solver.simps)
qed

lemma reduceDB_counters:
  assumes "reduceDB s = Inr s1"
  shows "conflicts s1 = conflicts s \<and> conflict_budget s1 = conflict_budget s \<and>
     lbdQueue s1 = lbdQueue s"
  using fr_reduce_keeps [OF reduceDB_frame [OF assms]] by simp

lemma cancelUntil_counters:
  assumes "cancelUntil lv s = Inr s1"
  shows "conflicts s1 = conflicts s \<and> conflict_budget s1 = conflict_budget s \<and>
     lbdQueue s1 = lbdQueue s"
  using fr_cancel_keeps [OF cancelUntil_frame [OF assms]] by simp

lemma uncheckedEnqueue_counters:
  assumes "uncheckedEnqueue p from s = Inr s1"
  shows "conflicts s1 = conflicts s \<and> conflict_budget s1 = conflict_budget s \<and>
     lbdQueue s1 = lbdQueue s"
  using fr_propagate_keeps [OF uncheckedEnqueue_frame [OF assms]] by simp

lemma propagate_counters:
  assumes "propagate s = Inr (c, s1)"
  shows "conflicts s1 = conflicts s \<and> conflict_budget s1 = conflict_budget s \<and>
     lbdQueue s1 = lbdQueue s"
  using fr_propagate_keeps [OF propagate_frame [OF assms]] by simp

lemma search_decide_counters:
  assumes "search_decide s = Inr (r, s1)"
  shows "conflicts s1 = conflicts s \<and> conflict_budget s1 = conflict_budget s \<and>
     lbdQueue s1 = lbdQueue s"
proof -
  from assms obtain s2 nx s3 where
    rd: "(if conflicts s \<ge> nextReduceDB s
          then thn (reduceDB s) (\<lambda>s1.
                 Inr (s1\<lparr> nextReduceDB := conflicts s1 + 2000 + 1000 * nb_reducedb s1 \<rparr>))
          else Inr s) = Inr s2"
    and pk: "pickBranchLit s2 = Inr (nx, s3)"
    and fin: "(case nx of None \<Rightarrow> Inr (Some l_True, s3)
          | Some q \<Rightarrow> thn (uncheckedEnqueue q None (newDecisionLevel s3))
                        (\<lambda>s4. Inr (None, s4))) = Inr (r, s1)"
    by (auto simp: search_decide_def thn_Inr_iff)
  have a: "conflicts s2 = conflicts s \<and> conflict_budget s2 = conflict_budget s \<and>
     lbdQueue s2 = lbdQueue s"
    using rd by (auto simp: thn_Inr_iff split: if_splits dest!: reduceDB_counters)
  note p = fr_pick_keeps [OF pickBranchLit_frame [OF pk]]
  have "conflicts s1 = conflicts s3 \<and> conflict_budget s1 = conflict_budget s3 \<and>
     lbdQueue s1 = lbdQueue s3"
    using fin
    by (auto simp: thn_Inr_iff newDecisionLevel_def split: option.splits
        dest!: uncheckedEnqueue_counters)
  with a p(1,2,3) show ?thesis
    by simp
qed

lemma search_no_conflict_counters:
  assumes "search_no_conflict s = Inr (r, s1)"
  shows "conflicts s1 = conflicts s \<and> conflict_budget s1 = conflict_budget s \<and>
     length (bq_elems (lbdQueue s1)) \<le> length (bq_elems (lbdQueue s)) \<and>
     bq_maxsize (lbdQueue s1) = bq_maxsize (lbdQueue s)"
  using assms
  by (auto simp: search_no_conflict_def thn_Inr_iff bq_fastclear_def split: if_splits
      dest!: search_decide_counters cancelUntil_counters)


subsection \<open>The restart test\<close>

lemma unat_conflicts_Suc:
  fixes c :: "64 word"
  assumes "unat c + Suc n < 2 ^ 64"
  shows "unat (c + 1) = unat c + 1"
proof -
  have "unat c + unat (1 :: 64 word) < 2 ^ LENGTH(64)"
    using assms by simp
  then show ?thesis
    by (simp add: unat_add_lem [THEN iffD1])
qed

lemma search_no_conflict_restart:
  assumes "lbd_counted s"
  shows "search_no_conflict s \<noteq> Inl RestartDivByZero"
proof
  assume a: "search_no_conflict s = Inl RestartDivByZero"
  have np: "\<not> plain RestartDivByZero"
    by (simp add: plain_def)
  show False
  proof (cases "bq_isvalid (lbdQueue s)")
    case False
    with a have "search_decide s = Inl RestartDivByZero"
      by (simp add: search_no_conflict_def)
    with np show False
      by (auto dest: search_decide_plain)
  next
    case True
    with assms have "unat (conflicts s) \<noteq> 0"
      by (auto simp: lbd_counted_def bq_isvalid_def)
    then have nz: "conflicts s \<noteq> 0"
      by auto
    with a True have "search_decide s = Inl RestartDivByZero
       \<or> cancelUntil 0 (s\<lparr> lbdQueue := bq_fastclear (lbdQueue s) \<rparr>) = Inl RestartDivByZero"
      by (auto simp: search_no_conflict_def thn_Inl_iff split: if_splits)
    with np show False
      by (auto dest: search_decide_plain cancelUntil_plain)
  qed
qed

lemma search_loop_restart:
  "lbd_counted s \<Longrightarrow> unat (conflicts s) + n < 2 ^ 64 \<Longrightarrow>
     search_loop n s \<noteq> Inl RestartDivByZero \<and>
     (\<forall>st s1. search_loop n s = Inr (st, s1) \<longrightarrow> lbd_counted s1)"
proof (induction n arbitrary: s)
  case 0
  then show ?case by simp
next
  case (Suc n)
  have np: "\<not> plain RestartDivByZero"
    by (simp add: plain_def)
  show ?case
  proof (cases "propagate s")
    case (Inl e)
    then have "plain e" by (rule propagate_plain)
    with Inl np show ?thesis by auto
  next
    case (Inr a)
    obtain confl s1 where a: "a = (confl, s1)" by (cases a)
    note pc = propagate_counters [OF Inr [unfolded a]]
    have q1: "lbd_counted s1"
      using Suc.prems(1) pc by (simp add: lbd_counted_def)
    have c1: "unat (conflicts s1) + Suc n < 2 ^ 64"
      using Suc.prems(2) pc by simp
    show ?thesis
    proof (cases confl)
      case None
      show ?thesis
      proof (cases "search_no_conflict s1")
        case (Inl e)
        with search_no_conflict_restart [OF q1] Inr a None show ?thesis
          by auto
      next
        case r: (Inr b)
        obtain r0 s2 where b: "b = (r0, s2)" by (cases b)
        note nc = search_no_conflict_counters [OF r [unfolded b]]
        have q2: "lbd_counted s2"
          using q1 nc by (simp add: lbd_counted_def)
        have c2: "unat (conflicts s2) + n < 2 ^ 64"
          using c1 nc by simp
        from Suc.IH [OF q2 c2] q2 Inr a None r b show ?thesis
          by (cases r0) auto
      qed
    next
      case (Some cr)
      let ?s1 = "s1\<lparr> conflicts := conflicts s1 + 1 \<rparr>"
      have u: "unat (conflicts s1 + 1) = unat (conflicts s1) + 1"
        by (rule unat_conflicts_Suc [OF c1])
      have q1': "lbd_counted ?s1"
        using q1 u by (simp add: lbd_counted_def)
      show ?thesis
      proof (cases "decisionLevel s1 = 0")
        case True
        with Inr a Some q1' show ?thesis by simp
      next
        case False
        show ?thesis
        proof (cases "search_conflict cr ?s1")
          case (Inl e)
          from search_conflict_fault [OF Inl] np have "e \<noteq> RestartDivByZero"
            by auto
          with Inl Inr a Some False show ?thesis by simp
        next
          case r: (Inr s2)
          note cc = search_conflict_counters [OF r]
          have q2: "lbd_counted s2"
            using q1 u cc by (simp add: lbd_counted_def)
          have c2: "unat (conflicts s2) + n < 2 ^ 64"
            using c1 u cc by simp
          from Suc.IH [OF q2 c2] Inr a Some False r show ?thesis
            by simp
        qed
      qed
    qed
  qed
qed

text \<open>
  Claim C9. In \<^verbatim>\<open>search\<close> the division \<^verbatim>\<open>sumLBD / conflicts\<close> of the restart test is
  evaluated only when \<^verbatim>\<open>lbdQueue.isvalid()\<close> holds. Every push onto \<^verbatim>\<open>lbdQueue\<close> follows
  an increment of \<^verbatim>\<open>conflicts\<close>, so as long as the 64-bit counter does not wrap, a valid
  queue means \<^verbatim>\<open>conflicts\<close> is at least 1: no run of \<^verbatim>\<open>search\<close> divides by zero, and the
  relation between the queue and the counter holds again when \<^verbatim>\<open>search\<close> returns.
\<close>

theorem restart_division_defined:
  assumes "lbd_counted s" "unat (conflicts s) + n < 2 ^ 64"
  shows "(bq_isvalid (lbdQueue s) \<longrightarrow> 1 \<le> unat (conflicts s)) \<and>
         search n nof s \<noteq> Inl RestartDivByZero \<and>
         (\<forall>st s1. search n nof s = Inr (st, s1) \<longrightarrow> lbd_counted s1)"
proof -
  have "bq_isvalid (lbdQueue s) \<longrightarrow> 1 \<le> unat (conflicts s)"
    using assms(1) by (auto simp: lbd_counted_def bq_isvalid_def)
  with search_loop_restart [OF assms] show ?thesis
    by (simp add: search_def)
qed

lemma full_queue_counted:
  "lbd_counted full_queue" "unat (conflicts full_queue) + 3 < 2 ^ 64"
  by (simp_all add: lbd_counted_def full_queue_def)

lemma full_queue_valid: "bq_isvalid (lbdQueue full_queue)"
  by (simp add: bq_isvalid_def full_queue_def)

lemma full_queue_restart: "answer (search 3 32 full_queue) = Inr (l_Undef, [])"
  by code_simp

text \<open>
  On \<open>full_queue\<close> the queue is valid, so the first turn of \<^verbatim>\<open>search\<close> evaluates the
  division, with \<^verbatim>\<open>conflicts\<close> = 100; the test holds (1.6 > 1.5) and \<^verbatim>\<open>search\<close>
  restarts.
\<close>

theorem restart_division_defined_witness:
  "lbd_counted full_queue \<and> unat (conflicts full_queue) + 3 < (2 :: nat) ^ 64 \<and>
   bq_isvalid (lbdQueue full_queue) \<and> 1 \<le> unat (conflicts full_queue) \<and>
   search 3 32 full_queue \<noteq> Inl RestartDivByZero \<and>
   answer (search 3 32 full_queue) = Inr (l_Undef, [])"
  using restart_division_defined [OF full_queue_counted, of 32] full_queue_counted
    full_queue_valid full_queue_restart
  by blast


subsection \<open>The conflict budget\<close>

lemma search_loop_counters:
  "search_loop n s = Inr (st, s1) \<Longrightarrow> unat (conflicts s) + n < 2 ^ 64 \<Longrightarrow>
     conflict_budget s1 = conflict_budget s \<and> unat (conflicts s) \<le> unat (conflicts s1)"
proof (induction n arbitrary: s)
  case 0
  then show ?case by simp
next
  case (Suc n)
  from Suc.prems(1) obtain confl s0 where pr: "propagate s = Inr (confl, s0)"
    by (cases "propagate s") (auto split: prod.splits)
  note pc = propagate_counters [OF pr]
  have c0: "unat (conflicts s0) + Suc n < 2 ^ 64"
    using Suc.prems(2) pc by simp
  show ?case
  proof (cases confl)
    case None
    with Suc.prems(1) pr obtain r0 s2 where r: "search_no_conflict s0 = Inr (r0, s2)"
      by (cases "search_no_conflict s0") (auto split: prod.splits)
    note nc = search_no_conflict_counters [OF r]
    show ?thesis
    proof (cases r0)
      case (Some status)
      with Suc.prems(1) pr None r have "s1 = s2" by simp
      with nc pc show ?thesis by simp
    next
      case n0: None
      with Suc.prems(1) pr None r have sl: "search_loop n s2 = Inr (st, s1)" by simp
      have "unat (conflicts s2) + n < 2 ^ 64"
        using c0 nc by simp
      from Suc.IH [OF sl this] nc pc show ?thesis by simp
    qed
  next
    case (Some cr)
    let ?s1 = "s0\<lparr> conflicts := conflicts s0 + 1 \<rparr>"
    have u: "unat (conflicts s0 + 1) = unat (conflicts s0) + 1"
      by (rule unat_conflicts_Suc [OF c0])
    show ?thesis
    proof (cases "decisionLevel s0 = 0")
      case True
      with Suc.prems(1) pr Some have "s1 = ?s1" by simp
      with u pc show ?thesis by simp
    next
      case False
      with Suc.prems(1) pr Some obtain s2 where r: "search_conflict cr ?s1 = Inr s2"
        and sl: "search_loop n s2 = Inr (st, s1)"
        by (cases "search_conflict cr ?s1") auto
      note cc = search_conflict_counters [OF r]
      have "unat (conflicts s2) + n < 2 ^ 64"
        using c0 u cc by simp
      from Suc.IH [OF sl this] cc u pc show ?thesis by simp
    qed
  qed
qed

lemma luby_first: "luby y 0 = Inr 1"
  by (simp add: luby_def luby_up.simps luby_down.simps)

lemma budget_spent:
  fixes c c1 :: "64 word"
  assumes "unat c < 2 ^ 63" "unat c \<le> unat c1"
  shows "\<not> (sint c < 0 \<or> c1 < c)"
proof -
  have "\<not> c1 < c"
    using assms(2) by (simp add: word_less_nat_alt)
  moreover have "\<not> sint c < 0"
  proof -
    have "int (unat c) < int (2 ^ 63)"
      using assms(1) by (simp only: of_nat_less_iff)
    then have "uint c < 2 ^ 63"
      by (simp only: uint_nat of_nat_power of_nat_numeral)
    moreover have "- (2 ^ 63) \<le> uint c"
    proof -
      have "- (2 ^ 63) \<le> (0 :: int)" by simp
      also have "0 \<le> uint c" by simp
      finally show ?thesis .
    qed
    ultimately have "signed_take_bit 63 (uint c) = uint c"
      by (intro signed_take_bit_int_eq_self)
    then have "sint c = uint c"
      by (simp add: sint_uint)
    then show ?thesis by simp
  qed
  ultimately show ?thesis by simp
qed


text \<open>
  Claim C2, amended. \<^verbatim>\<open>solve()\<close> starts with \<^verbatim>\<open>budgetOff()\<close>, so a budget set before
  it has no effect. In \<^verbatim>\<open>solve_\<close> the budget is tested only after a call of \<^verbatim>\<open>search\<close>
  has returned, and \<^verbatim>\<open>search\<close> itself never reads it: after \<^verbatim>\<open>setConfBudget(0)\<close> the
  loop of \<^verbatim>\<open>solve_\<close> makes exactly one turn, and its result is the result of that first
  \<^verbatim>\<open>search\<close>, with all its decisions and conflicts (as long as the conflict counter
  stays below \<open>2\<^sup>6\<^sup>3\<close>).
\<close>

theorem conflict_budget_first_search:
  assumes "unat (conflicts s) + fuel < 2 ^ 63"
  shows "solve fuel (setConfBudget x s) = solve fuel s \<and>
         solve_loop (Suc m) fuel 0 (setConfBudget 0 s)
           = search fuel 32 ((setConfBudget 0 s)\<lparr> starts := starts s + 1 \<rparr>)"
proof -
  let ?s = "(setConfBudget 0 s)\<lparr> starts := starts s + 1 \<rparr>"
  have a: "solve fuel (setConfBudget x s) = solve fuel s"
    by (simp add: solve_def budgetOff_def setConfBudget_def)
  have b: "solve_loop (Suc m) fuel 0 (setConfBudget 0 s) = search fuel 32 ?s"
  proof (cases "search fuel 32 ?s")
    case (Inl e)
    then show ?thesis
      by (simp add: luby_first setConfBudget_def)
  next
    case (Inr r)
    obtain st s1 where r: "r = (st, s1)" by (cases r)
    from Inr r have sl: "search_loop fuel ?s = Inr (st, s1)"
      by (simp add: search_def split: if_splits)
    have "unat (conflicts ?s) + fuel < 2 ^ 64"
      using assms by (simp add: setConfBudget_def)
    from search_loop_counters [OF sl this]
    have c: "conflict_budget s1 = conflicts s" "unat (conflicts s) \<le> unat (conflicts s1)"
      by (simp_all add: setConfBudget_def)
    have "unat (conflicts s) < 2 ^ 63"
      using assms by simp
    from budget_spent [OF this c(2)] c(1) have "\<not> withinBudget s1"
      by (simp add: withinBudget_def)
    with Inr r show ?thesis
      by (simp add: luby_first setConfBudget_def)
  qed
  from a b show ?thesis by simp
qed


text \<open>
  Claim C2, as stated: on the two clauses \<open>x0 \<or> x1 \<or> x2\<close> and \<open>x0 \<or> x1 \<or> \<not> x2\<close>,
  after \<^verbatim>\<open>setConfBudget(0)\<close>, both \<^verbatim>\<open>solve\<close> and \<^verbatim>\<open>solve_\<close> return \<^verbatim>\<open>l_True\<close>, not
  \<^verbatim>\<open>l_Undef\<close>, after three decisions and one conflict.
\<close>

theorem conflict_budget_zero_counterexample:
  "effort (solve 10 (setConfBudget 0 two_clauses)) = Inr (l_True, 3, 1) \<and>
   effort (solve' 10 (setConfBudget 0 two_clauses)) = Inr (l_True, 3, 1)"
  by code_simp

lemma two_clauses_conflicts0: "conflicts two_clauses = 0"
  by code_simp

lemma two_clauses_conflicts: "unat (conflicts two_clauses) + 10 < 2 ^ 63"
  by (simp add: two_clauses_conflicts0)

theorem conflict_budget_first_search_witness:
  "unat (conflicts two_clauses) + 10 < (2 :: nat) ^ 63 \<and>
   solve 10 (setConfBudget 0 two_clauses) = solve 10 two_clauses \<and>
   solve_loop (Suc 0) 10 0 (setConfBudget 0 two_clauses)
     = search 10 32 ((setConfBudget 0 two_clauses)\<lparr> starts := starts two_clauses + 1 \<rparr>)"
  using conflict_budget_first_search [OF two_clauses_conflicts, of 0 0] two_clauses_conflicts
  by blast

end
